theory Spec2Isabelle
  imports Main
begin

section \<open>Memory SSA construction (lib/MSSA/MemSSA.cpp)\<close>

text \<open>
  A shallow embedding of \<^verbatim>\<open>MemSSA::buildMemSSA\<close> and the three passes it runs:
  \<^verbatim>\<open>createMUCHI\<close>, \<^verbatim>\<open>insertPHI\<close> and \<^verbatim>\<open>SSARename\<close>. Pointers to LLVM and SVF
  objects are identities (natural numbers); the member maps of the \<^verbatim>\<open>MemSSA\<close> object
  are the fields of one record that every pass takes and returns. A failed
  \<^verbatim>\<open>assert\<close> is the value \<open>Inl (AssertionFailure msg)\<close>; an operation the C++ standard
  leaves undefined (\<^verbatim>\<open>pop_back\<close> on an empty vector) is \<open>Inl (UndefinedBehaviour msg)\<close>.
\<close>

subsection \<open>The program representation\<close>

type_synonym MemRegion = nat
type_synonym BasicBlock = nat
type_synonym LoadPE = nat
type_synonym StorePE = nat
type_synonym CallBlockNode = nat

text \<open>
  Modelled from the spec: the type \<^verbatim>\<open>MRVERSION\<close> is declared in MSSA/MemSSA.h, which is
  not among the sources; the spec has versions as non-negative integers.
\<close>

type_synonym MRVERSION = nat

datatype error = AssertionFailure string | UndefinedBehaviour string

datatype PAGEdge = Load LoadPE | Store StorePE | OtherPE

text \<open>
  What the passes ask of an instruction: its PAG edges (\<^verbatim>\<open>mrGen->hasPAGEdgeList\<close> and
  \<^verbatim>\<open>getPAGEdgesFromInst\<close>; \<open>None\<close> when it has no edge list), its call-site node when
  \<^verbatim>\<open>isNonInstricCallSite\<close> holds, and whether it is a return.
\<close>

record Instruction =
  pagEdgeList :: "PAGEdge list option"
  callSite :: "CallBlockNode option"
  isReturn :: bool

text \<open>
  The region generator \<^verbatim>\<open>mrGen\<close>. A region set is listed in its iteration order.
  \<^verbatim>\<open>hasRefMRSet\<close> and \<^verbatim>\<open>hasModMRSet\<close> are the definedness of the two call-site maps.
\<close>

record MRGenerator =
  getLoadMRSet :: "LoadPE \<Rightarrow> MemRegion list"
  getStoreMRSet :: "StorePE \<Rightarrow> MemRegion list"
  getCallSiteRefMRSet :: "CallBlockNode \<Rightarrow> MemRegion list option"
  getCallSiteModMRSet :: "CallBlockNode \<Rightarrow> MemRegion list option"

text \<open>
  The control-flow graph. \<open>getBBPredecessorPos\<close> (SVFUtil, not among the sources) is
  a parameter: the position of a block among the predecessors of a successor.
  \<open>getParent\<close> gives the function a block belongs to.
\<close>

record Program =
  instructions :: "BasicBlock \<Rightarrow> Instruction list"
  successors :: "BasicBlock \<Rightarrow> BasicBlock list"
  getBBPredecessorPos :: "BasicBlock \<Rightarrow> BasicBlock \<Rightarrow> nat"
  getParent :: "BasicBlock \<Rightarrow> nat"

text \<open>
  A function: its identity, \<^verbatim>\<open>isExtCall\<close>, its entry block, the blocks
  \<^verbatim>\<open>getFunReachableBBs\<close> returns, and \<^verbatim>\<open>functionDoesNotRet\<close>.
\<close>

record SVFFunction =
  funId :: nat
  isExtCall :: bool
  getEntryBlock :: BasicBlock
  reachableBBs :: "BasicBlock list"
  functionDoesNotRet :: bool

text \<open>
  The dominance frontier is a finite map from a block to its frontier set
  (\<^verbatim>\<open>df->find(bb)\<close> is \<open>map_of df bb\<close>). The dominator tree is its root node; every node
  holds its block and its children.
\<close>

type_synonym DominanceFrontier = "(BasicBlock \<times> BasicBlock list) list"

datatype DomTreeNode = DomTreeNode (getBlock: BasicBlock) (children: "DomTreeNode list")

type_synonym DominatorTree = DomTreeNode

subsection \<open>Memory SSA nodes and the state of the builder\<close>

text \<open>
  The definition site that owns a version: the node \<^verbatim>\<open>new ENTRYCHI(&fun, mr)\<close>,
  \<^verbatim>\<open>new PHI(bb, mr)\<close>, a store chi or a call chi, named by what it is built from.
\<close>

datatype MSSADEF =
  ENTRYCHI nat MemRegion
  | STORECHI BasicBlock StorePE MemRegion
  | CALLCHI CallBlockNode MemRegion
  | MSSAPHI BasicBlock MemRegion

record MRVer =
  ver_mr :: MemRegion
  ver_version :: MRVERSION
  ver_def :: MSSADEF

record MU =
  mu_mr :: MemRegion
  mu_ver :: "MRVer option"

record CHI =
  chi_def :: MSSADEF
  chi_mr :: MemRegion
  chi_opVer :: "MRVer option"
  chi_resVer :: "MRVer option"

record PHI =
  phi_bb :: BasicBlock
  phi_mr :: MemRegion
  phi_resVer :: "MRVer option"
  phi_opVers :: "nat \<Rightarrow> MRVer option"

text \<open>
  The members of \<^verbatim>\<open>MemSSA\<close>. A set of node pointers is the list of its nodes: every
  node is allocated by \<^verbatim>\<open>new\<close> and inserted into one set only, so renaming a node in
  place is replacing it in its list. \<open>mr2CounterMap\<close>, \<open>mr2VerStackMap\<close> and
  \<open>bb2PhiSetMap\<close> are partial maps because the code tests their keys (\<^verbatim>\<open>count\<close>,
  \<^verbatim>\<open>hasPHISet\<close>); the other maps are only read with \<^verbatim>\<open>operator[]\<close>, which gives an
  empty set for a new key. \<open>warnings\<close> is what \<^verbatim>\<open>writeWrnMsg\<close> has printed.
\<close>

record MemSSA =
  usedRegs :: "MemRegion list"
  reg2BBMap :: "MemRegion \<Rightarrow> BasicBlock list"
  varKills :: "MemRegion set"
  mr2CounterMap :: "MemRegion \<Rightarrow> MRVERSION option"
  mr2VerStackMap :: "MemRegion \<Rightarrow> MRVer list option"
  load2MuSetMap :: "LoadPE \<Rightarrow> MU list"
  store2ChiSetMap :: "StorePE \<Rightarrow> CHI list"
  callsiteToMuSetMap :: "CallBlockNode \<Rightarrow> MU list"
  callsiteToChiSetMap :: "CallBlockNode \<Rightarrow> CHI list"
  funToEntryChiSetMap :: "nat \<Rightarrow> CHI list"
  funToReturnMuSetMap :: "nat \<Rightarrow> MU list"
  bb2PhiSetMap :: "BasicBlock \<Rightarrow> PHI list option"
  warnings :: "string list"

text \<open>The object as the constructor leaves it: every map empty.\<close>

definition emptyMemSSA :: MemSSA where
  "emptyMemSSA =
    \<lparr> usedRegs = [], reg2BBMap = (\<lambda>_. []), varKills = {},
      mr2CounterMap = Map.empty, mr2VerStackMap = Map.empty,
      load2MuSetMap = (\<lambda>_. []), store2ChiSetMap = (\<lambda>_. []),
      callsiteToMuSetMap = (\<lambda>_. []), callsiteToChiSetMap = (\<lambda>_. []),
      funToEntryChiSetMap = (\<lambda>_. []), funToReturnMuSetMap = (\<lambda>_. []),
      bb2PhiSetMap = Map.empty, warnings = [] \<rparr>"

text \<open>\<^verbatim>\<open>setCurrentDFDT\<close>: the used regions and the defining blocks start empty.\<close>

definition setCurrentDFDT :: "MemSSA \<Rightarrow> MemSSA" where
  "setCurrentDFDT s = s\<lparr>usedRegs := [], reg2BBMap := (\<lambda>_. [])\<rparr>"

subsection \<open>newSSAName\<close>

text \<open>
  Both assertions, then the version is the counter's value, the counter is
  incremented and the new version is pushed on the region's stack.
\<close>

definition newSSAName :: "MemRegion \<Rightarrow> MSSADEF \<Rightarrow> MemSSA \<Rightarrow> error + (MRVer \<times> MemSSA)" where
  "newSSAName mr d s =
    (case mr2CounterMap s mr of
      None \<Rightarrow> Inl (AssertionFailure ''did not find initial version in map? '')
    | Some version \<Rightarrow>
        (case mr2VerStackMap s mr of
          None \<Rightarrow> Inl (AssertionFailure ''did not find initial stack in map? '')
        | Some stack \<Rightarrow>
            (let mrVer = \<lparr>ver_mr = mr, ver_version = version, ver_def = d\<rparr>
             in Inr (mrVer,
                  s\<lparr>mr2CounterMap := (mr2CounterMap s)(mr \<mapsto> version + 1),
                    mr2VerStackMap := (mr2VerStackMap s)(mr \<mapsto> stack @ [mrVer])\<rparr>))))"

subsection \<open>createMUCHI\<close>

text \<open>
  Modelled from the spec: \<^verbatim>\<open>AddLoadMU\<close>, \<^verbatim>\<open>AddStoreCHI\<close>, \<^verbatim>\<open>AddCallSiteMU\<close> and
  \<^verbatim>\<open>AddCallSiteCHI\<close> are defined in MSSA/MemSSA.h, which is not among the sources.
  The spec (4.1) and the comment at the head of \<^verbatim>\<open>createMUCHI\<close> give their effect: one
  use node per region read, one def node per region written; at \<open>mu(r)\<close> the region
  joins the used regions unless the block has already killed it; at \<open>r = chi(r)\<close> it
  joins them likewise, is killed, and the block joins the region's defining blocks
  (at most once).
\<close>

definition collectUse :: "MemRegion \<Rightarrow> MemSSA \<Rightarrow> MemSSA" where
  "collectUse mr s =
    (if mr \<in> varKills s then s else s\<lparr>usedRegs := List.insert mr (usedRegs s)\<rparr>)"

definition collectDef :: "BasicBlock \<Rightarrow> MemRegion \<Rightarrow> MemSSA \<Rightarrow> MemSSA" where
  "collectDef bb mr s =
    (let s1 = (if mr \<in> varKills s then s else s\<lparr>usedRegs := List.insert mr (usedRegs s)\<rparr>)
     in s1\<lparr>varKills := insert mr (varKills s1),
          reg2BBMap := (reg2BBMap s1)(mr := List.insert bb (reg2BBMap s1 mr))\<rparr>)"

definition newMU :: "MemRegion \<Rightarrow> MU" where
  "newMU mr = \<lparr>mu_mr = mr, mu_ver = None\<rparr>"

definition newCHI :: "MSSADEF \<Rightarrow> MemRegion \<Rightarrow> CHI" where
  "newCHI d mr = \<lparr>chi_def = d, chi_mr = mr, chi_opVer = None, chi_resVer = None\<rparr>"

definition AddLoadMU :: "BasicBlock \<Rightarrow> LoadPE \<Rightarrow> MemRegion list \<Rightarrow> MemSSA \<Rightarrow> MemSSA" where
  "AddLoadMU bb load mrs s =
    fold (\<lambda>mr s. collectUse mr
            (s\<lparr>load2MuSetMap := (load2MuSetMap s)(load := load2MuSetMap s load @ [newMU mr])\<rparr>))
      mrs s"

definition AddStoreCHI :: "BasicBlock \<Rightarrow> StorePE \<Rightarrow> MemRegion list \<Rightarrow> MemSSA \<Rightarrow> MemSSA" where
  "AddStoreCHI bb store mrs s =
    fold (\<lambda>mr s. collectDef bb mr
            (s\<lparr>store2ChiSetMap :=
                (store2ChiSetMap s)(store := store2ChiSetMap s store @ [newCHI (STORECHI bb store mr) mr])\<rparr>))
      mrs s"

definition AddCallSiteMU :: "CallBlockNode \<Rightarrow> MemRegion list \<Rightarrow> MemSSA \<Rightarrow> MemSSA" where
  "AddCallSiteMU cs mrs s =
    fold (\<lambda>mr s. collectUse mr
            (s\<lparr>callsiteToMuSetMap := (callsiteToMuSetMap s)(cs := callsiteToMuSetMap s cs @ [newMU mr])\<rparr>))
      mrs s"

text \<open>The block of a call-site def is the block of its call site, here \<open>bb\<close>.\<close>

definition AddCallSiteCHI :: "BasicBlock \<Rightarrow> CallBlockNode \<Rightarrow> MemRegion list \<Rightarrow> MemSSA \<Rightarrow> MemSSA" where
  "AddCallSiteCHI bb cs mrs s =
    fold (\<lambda>mr s. collectDef bb mr
            (s\<lparr>callsiteToChiSetMap :=
                (callsiteToChiSetMap s)(cs := callsiteToChiSetMap s cs @ [newCHI (CALLCHI cs mr) mr])\<rparr>))
      mrs s"

text \<open>The first loop of \<^verbatim>\<open>createMUCHI\<close>: every reachable block, every instruction.\<close>

definition createMUCHI_edge :: "MRGenerator \<Rightarrow> BasicBlock \<Rightarrow> PAGEdge \<Rightarrow> MemSSA \<Rightarrow> MemSSA" where
  "createMUCHI_edge g bb e s =
    (case e of
      Load load \<Rightarrow> AddLoadMU bb load (getLoadMRSet g load) s
    | Store store \<Rightarrow> AddStoreCHI bb store (getStoreMRSet g store) s
    | OtherPE \<Rightarrow> s)"

definition createMUCHI_inst :: "MRGenerator \<Rightarrow> BasicBlock \<Rightarrow> Instruction \<Rightarrow> MemSSA \<Rightarrow> MemSSA" where
  "createMUCHI_inst g bb inst s =
    (let s1 = (case pagEdgeList inst of
                None \<Rightarrow> s
              | Some edges \<Rightarrow> fold (createMUCHI_edge g bb) edges s)
     in case callSite inst of
          None \<Rightarrow> s1
        | Some cs \<Rightarrow>
            (let s2 = (case getCallSiteRefMRSet g cs of
                        None \<Rightarrow> s1
                      | Some mrs \<Rightarrow> AddCallSiteMU cs mrs s1)
             in case getCallSiteModMRSet g cs of
                  None \<Rightarrow> s2
                | Some mrs \<Rightarrow> AddCallSiteCHI bb cs mrs s2))"

definition createMUCHI_block :: "Program \<Rightarrow> MRGenerator \<Rightarrow> BasicBlock \<Rightarrow> MemSSA \<Rightarrow> MemSSA" where
  "createMUCHI_block p g bb s =
    fold (createMUCHI_inst g bb) (instructions p bb) (s\<lparr>varKills := {}\<rparr>)"

text \<open>
  The second loop: for every used region the counter is set to 0, the stack is
  cleared, the entry chi takes two new names in turn (operand, then result) and
  joins the function's entry chis; a return mu joins the function's return mus
  unless \<^verbatim>\<open>functionDoesNotRet\<close>.
\<close>

fun createMUCHI_entry :: "SVFFunction \<Rightarrow> MemRegion list \<Rightarrow> MemSSA \<Rightarrow> error + MemSSA" where
  "createMUCHI_entry f [] s = Inr s"
| "createMUCHI_entry f (mr # rest) s =
    (let s1 = s\<lparr>mr2CounterMap := (mr2CounterMap s)(mr \<mapsto> 0),
                mr2VerStackMap := (mr2VerStackMap s)(mr \<mapsto> [])\<rparr>;
         chi = newCHI (ENTRYCHI (funId f) mr) mr
     in case newSSAName mr (chi_def chi) s1 of
          Inl e \<Rightarrow> Inl e
        | Inr (opv, s2) \<Rightarrow>
            (case newSSAName mr (chi_def chi) s2 of
              Inl e \<Rightarrow> Inl e
            | Inr (resv, s3) \<Rightarrow>
                (let chi' = chi\<lparr>chi_opVer := Some opv, chi_resVer := Some resv\<rparr>;
                     s4 = s3\<lparr>funToEntryChiSetMap :=
                            (funToEntryChiSetMap s3)(funId f := funToEntryChiSetMap s3 (funId f) @ [chi'])\<rparr>;
                     s5 = (if functionDoesNotRet f = False
                           then s4\<lparr>funToReturnMuSetMap :=
                                  (funToReturnMuSetMap s4)(funId f := funToReturnMuSetMap s4 (funId f) @ [newMU mr])\<rparr>
                           else s4)
                 in createMUCHI_entry f rest s5)))"

definition createMUCHI :: "Program \<Rightarrow> MRGenerator \<Rightarrow> SVFFunction \<Rightarrow> MemSSA \<Rightarrow> error + MemSSA" where
  "createMUCHI p g f s =
    (let s1 = fold (createMUCHI_block p g) (reachableBBs f) s
     in createMUCHI_entry f (usedRegs s1) s1)"

subsection \<open>insertPHI\<close>

text \<open>
  Modelled from the spec: \<^verbatim>\<open>AddMSSAPHI\<close> is defined in MSSA/MemSSA.h, which is not among
  the sources. It inserts a phi node for the region at the block; the operand slots
  of the new node are left unfilled.
\<close>

definition newPHI :: "BasicBlock \<Rightarrow> MemRegion \<Rightarrow> PHI" where
  "newPHI bb mr = \<lparr>phi_bb = bb, phi_mr = mr, phi_resVer = None, phi_opVers = (\<lambda>_. None)\<rparr>"

definition AddMSSAPHI :: "BasicBlock \<Rightarrow> MemRegion \<Rightarrow> MemSSA \<Rightarrow> MemSSA" where
  "AddMSSAPHI bb mr s =
    s\<lparr>bb2PhiSetMap := (bb2PhiSetMap s)(bb \<mapsto>
        (case bb2PhiSetMap s bb of None \<Rightarrow> [] | Some phis \<Rightarrow> phis) @ [newPHI bb mr])\<rparr>"

definition writeWrnMsg :: "string \<Rightarrow> MemSSA \<Rightarrow> MemSSA" where
  "writeWrnMsg msg s = s\<lparr>warnings := warnings s @ [msg]\<rparr>"

text \<open>
  The \<^verbatim>\<open>for\<close> loop over one frontier set. \<open>bb2MRSetMap\<close> is the local map that records
  the phis already inserted, \<open>bbs\<close> the worklist (its back is the last element).
\<close>

fun insertPHI_domSet ::
  "MemRegion \<Rightarrow> BasicBlock list \<Rightarrow> (BasicBlock \<Rightarrow> MemRegion set) \<Rightarrow> BasicBlock list \<Rightarrow> MemSSA
    \<Rightarrow> (BasicBlock \<Rightarrow> MemRegion set) \<times> BasicBlock list \<times> MemSSA" where
  "insertPHI_domSet mr [] bb2MRSetMap bbs s = (bb2MRSetMap, bbs, s)"
| "insertPHI_domSet mr (pbb # rest) bb2MRSetMap bbs s =
    (if mr \<notin> bb2MRSetMap pbb
     then insertPHI_domSet mr rest
            (bb2MRSetMap(pbb := insert mr (bb2MRSetMap pbb))) (bbs @ [pbb]) (AddMSSAPHI pbb mr s)
     else insertPHI_domSet mr rest bb2MRSetMap bbs s)"

text \<open>The blocks that stand in some frontier set, and those of them without a phi of \<open>mr\<close>.\<close>

definition dfRange :: "DominanceFrontier \<Rightarrow> BasicBlock set" where
  "dfRange df = (\<Union>(b, domSet) \<in> set df. set domSet)"

definition unmarked ::
  "DominanceFrontier \<Rightarrow> MemRegion \<Rightarrow> (BasicBlock \<Rightarrow> MemRegion set) \<Rightarrow> BasicBlock set" where
  "unmarked df mr m = {b \<in> dfRange df. mr \<notin> m b}"

lemma finite_dfRange: "finite (dfRange df)"
  by (auto simp: dfRange_def)

lemma finite_unmarked: "finite (unmarked df mr m)"
  by (simp add: unmarked_def finite_dfRange)

lemma map_of_dfRange: "map_of df bb = Some domSet \<Longrightarrow> set domSet \<subseteq> dfRange df"
  by (auto simp: dfRange_def dest!: map_of_SomeD)

lemma insertPHI_domSet_measure:
  "insertPHI_domSet mr domSet m bbs s = (m', bbs', s') \<Longrightarrow> set domSet \<subseteq> dfRange df \<Longrightarrow>
     (m' = m \<and> bbs' = bbs) \<or> card (unmarked df mr m') < card (unmarked df mr m)"
proof (induction domSet arbitrary: m bbs s)
  case Nil
  then show ?case by simp
next
  case (Cons pbb rest)
  show ?case
  proof (cases "mr \<in> m pbb")
    case True
    with Cons show ?thesis by simp
  next
    case False
    let ?m1 = "m(pbb := insert mr (m pbb))"
    from False Cons.prems
    have step: "insertPHI_domSet mr rest ?m1 (bbs @ [pbb]) (AddMSSAPHI pbb mr s) = (m', bbs', s')"
      by simp
    from Cons.prems have sub: "set rest \<subseteq> dfRange df" and inR: "pbb \<in> dfRange df" by auto
    have "unmarked df mr ?m1 \<subset> unmarked df mr m"
      using False inR by (auto simp: unmarked_def)
    then have lt: "card (unmarked df mr ?m1) < card (unmarked df mr m)"
      by (simp add: finite_unmarked psubset_card_mono)
    from Cons.IH[OF step sub] show ?thesis
    proof
      assume "m' = ?m1 \<and> bbs' = bbs @ [pbb]"
      then have "m' = ?m1" ..
      with lt show ?thesis by blast
    next
      assume "card (unmarked df mr m') < card (unmarked df mr ?m1)"
      with lt show ?thesis by linarith
    qed
  qed
qed

text \<open>
  The \<^verbatim>\<open>while\<close> loop over the worklist of one region. A block that \<^verbatim>\<open>df->find\<close> misses
  gives the warning and the loop continues with the rest of the worklist.
\<close>

function (domintros) insertPHI_while ::
  "DominanceFrontier \<Rightarrow> MemRegion \<Rightarrow> BasicBlock list \<Rightarrow> (BasicBlock \<Rightarrow> MemRegion set) \<Rightarrow> MemSSA
    \<Rightarrow> (BasicBlock \<Rightarrow> MemRegion set) \<times> MemSSA" where
  "insertPHI_while df mr bbs bb2MRSetMap s =
    (if bbs = [] then (bb2MRSetMap, s)
     else (let bb = last bbs; bbs1 = butlast bbs
           in case map_of df bb of
                None \<Rightarrow>
                  insertPHI_while df mr bbs1 bb2MRSetMap
                    (writeWrnMsg ''bb not in the dominance frontier map??'' s)
              | Some domSet \<Rightarrow>
                  (case insertPHI_domSet mr domSet bb2MRSetMap bbs1 s of
                    (bb2MRSetMap', bbs2, s') \<Rightarrow> insertPHI_while df mr bbs2 bb2MRSetMap' s')))"
  by pat_completeness auto

text \<open>
  The order in which the loop descends: a turn either inserts a phi at a frontier
  block that had none for the region (fewer unmarked frontier blocks), or leaves the
  map alone and shortens the worklist.
\<close>

definition worklistOrder ::
  "((DominanceFrontier \<times> MemRegion \<times> BasicBlock list \<times> (BasicBlock \<Rightarrow> MemRegion set) \<times> MemSSA) \<times>
    (DominanceFrontier \<times> MemRegion \<times> BasicBlock list \<times> (BasicBlock \<Rightarrow> MemRegion set) \<times> MemSSA)) set" where
  "worklistOrder =
    measures [\<lambda>(df, mr, bbs, m, s). card (unmarked df mr m), \<lambda>(df, mr, bbs, m, s). length bbs]"

lemma wf_worklistOrder: "wf worklistOrder"
  by (simp add: worklistOrder_def)

lemma worklistOrder_miss:
  "bbs \<noteq> [] \<Longrightarrow> ((df, mr, butlast bbs, m, s'), (df, mr, bbs, m, s)) \<in> worklistOrder"
  by (simp add: worklistOrder_def)

lemma worklistOrder_hit:
  assumes "bbs \<noteq> []" "map_of df (last bbs) = Some domSet"
    "insertPHI_domSet mr domSet m (butlast bbs) s = (m', bbs', s')"
  shows "((df, mr, bbs', m', s'), (df, mr, bbs, m, s)) \<in> worklistOrder"
  using insertPHI_domSet_measure[OF assms(3) map_of_dfRange[OF assms(2)]] assms(1)
  by (auto simp: worklistOrder_def)

lemma insertPHI_while_total: "insertPHI_while_dom x"
  using wf_worklistOrder
proof (induct x rule: wf_induct_rule)
  case (less x)
  obtain df mr bbs m s where x: "x = (df, mr, bbs, m, s)" by (cases x)
  show ?case unfolding x
  proof (rule insertPHI_while.domintros)
    assume "bbs \<noteq> []"
    then show "insertPHI_while_dom
      (df, mr, butlast bbs, m, writeWrnMsg ''bb not in the dominance frontier map??'' s)"
      using less x worklistOrder_miss by blast
  next
    fix domSet m' bbs' s'
    assume "bbs \<noteq> []" "map_of df (last bbs) = Some domSet"
      "(m', bbs', s') = insertPHI_domSet mr domSet m (butlast bbs) s"
    then have "((df, mr, bbs', m', s'), (df, mr, bbs, m, s)) \<in> worklistOrder"
      using worklistOrder_hit[of bbs df domSet mr m s m' bbs' s'] by simp
    then show "insertPHI_while_dom (df, mr, bbs', m', s')"
      using less x by blast
  qed
qed

termination insertPHI_while
  by (simp add: insertPHI_while_total)

text \<open>The loop over the used regions, and \<^verbatim>\<open>insertPHI\<close> with its fresh local map.\<close>

fun insertPHI_regions ::
  "DominanceFrontier \<Rightarrow> MemRegion list \<Rightarrow> (BasicBlock \<Rightarrow> MemRegion set) \<Rightarrow> MemSSA
    \<Rightarrow> (BasicBlock \<Rightarrow> MemRegion set) \<times> MemSSA" where
  "insertPHI_regions df [] bb2MRSetMap s = (bb2MRSetMap, s)"
| "insertPHI_regions df (mr # rest) bb2MRSetMap s =
    (case insertPHI_while df mr (reg2BBMap s mr) bb2MRSetMap s of
      (bb2MRSetMap', s') \<Rightarrow> insertPHI_regions df rest bb2MRSetMap' s')"

definition insertPHI :: "DominanceFrontier \<Rightarrow> MemSSA \<Rightarrow> MemSSA" where
  "insertPHI df s = snd (insertPHI_regions df (usedRegs s) (\<lambda>_. {}) s)"

subsection \<open>SSARename\<close>

text \<open>Sequencing of steps that may fail: the first failure is the result.\<close>

definition bindE :: "error + 'a \<Rightarrow> ('a \<Rightarrow> error + 'b) \<Rightarrow> error + 'b" where
  "bindE m f = (case m of Inl e \<Rightarrow> Inl e | Inr x \<Rightarrow> f x)"

lemma bindE_Inl [simp]: "bindE (Inl e) f = Inl e"
  by (simp add: bindE_def)

lemma bindE_Inr [simp]: "bindE (Inr x) f = f x"
  by (simp add: bindE_def)

lemma bindE_cong [fundef_cong]:
  "m = m' \<Longrightarrow> (\<And>x. m' = Inr x \<Longrightarrow> f x = f' x) \<Longrightarrow> bindE m f = bindE m' f'"
  by (auto simp: bindE_def split: sum.splits)

lemma bindE_eq_Inr: "bindE m f = Inr y \<longleftrightarrow> (\<exists>x. m = Inr x \<and> f x = Inr y)"
  by (cases m) simp_all

text \<open>
  Modelled from the spec: the helpers that rename one set of nodes (\<^verbatim>\<open>RenameMuSet\<close>,
  \<^verbatim>\<open>RenameChiSet\<close>, \<^verbatim>\<open>RenamePhiRes\<close>, \<^verbatim>\<open>RenamePhiOps\<close>) and the accessors of the node
  maps are defined in MSSA/MemSSA.h, which is not among the sources. The spec (4.3)
  and the comments of \<^verbatim>\<open>SSARenameBB\<close> give their effect: a mu takes the version on top
  of its region's stack; a chi takes the top of the stack as its operand and a new
  name as its result; a phi result takes a new name; a phi operand slot takes the
  top of the stack; every region that got a new name is recorded in \<open>memRegs\<close>
  (``record which mem region needs to pop stack''). Reading the top of an empty
  stack is a breach of the renaming invariant, caught by an assertion.
\<close>

definition topStackVer :: "MemRegion \<Rightarrow> MemSSA \<Rightarrow> error + MRVer" where
  "topStackVer mr s =
    (case mr2VerStackMap s mr of
      None \<Rightarrow> Inl (AssertionFailure ''stack is empty'')
    | Some stack \<Rightarrow>
        if stack = [] then Inl (AssertionFailure ''stack is empty'') else Inr (last stack))"

fun RenameMuSet :: "MU list \<Rightarrow> MemSSA \<Rightarrow> error + MU list" where
  "RenameMuSet [] s = Inr []"
| "RenameMuSet (mu # rest) s =
    bindE (topStackVer (mu_mr mu) s) (\<lambda>v.
    bindE (RenameMuSet rest s) (\<lambda>rest'.
    Inr (mu\<lparr>mu_ver := Some v\<rparr> # rest')))"

fun RenameChiSet ::
  "CHI list \<Rightarrow> MemRegion list \<Rightarrow> MemSSA \<Rightarrow> error + (CHI list \<times> MemRegion list \<times> MemSSA)" where
  "RenameChiSet [] memRegs s = Inr ([], memRegs, s)"
| "RenameChiSet (chi # rest) memRegs s =
    bindE (topStackVer (chi_mr chi) s) (\<lambda>opv.
    bindE (newSSAName (chi_mr chi) (chi_def chi) s) (\<lambda>(resv, s1).
    bindE (RenameChiSet rest (memRegs @ [chi_mr chi]) s1) (\<lambda>(rest', memRegs', s2).
    Inr (chi\<lparr>chi_opVer := Some opv, chi_resVer := Some resv\<rparr> # rest', memRegs', s2))))"

fun RenamePhiRes ::
  "PHI list \<Rightarrow> MemRegion list \<Rightarrow> MemSSA \<Rightarrow> error + (PHI list \<times> MemRegion list \<times> MemSSA)" where
  "RenamePhiRes [] memRegs s = Inr ([], memRegs, s)"
| "RenamePhiRes (phi # rest) memRegs s =
    bindE (newSSAName (phi_mr phi) (MSSAPHI (phi_bb phi) (phi_mr phi)) s) (\<lambda>(resv, s1).
    bindE (RenamePhiRes rest (memRegs @ [phi_mr phi]) s1) (\<lambda>(rest', memRegs', s2).
    Inr (phi\<lparr>phi_resVer := Some resv\<rparr> # rest', memRegs', s2)))"

fun RenamePhiOps :: "PHI list \<Rightarrow> nat \<Rightarrow> MemSSA \<Rightarrow> error + PHI list" where
  "RenamePhiOps [] pos s = Inr []"
| "RenamePhiOps (phi # rest) pos s =
    bindE (topStackVer (phi_mr phi) s) (\<lambda>v.
    bindE (RenamePhiOps rest pos s) (\<lambda>rest'.
    Inr (phi\<lparr>phi_opVers := (phi_opVers phi)(pos \<mapsto> v)\<rparr> # rest')))"

text \<open>The loop over the PAG edges of one instruction.\<close>

fun renameEdges ::
  "PAGEdge list \<Rightarrow> MemRegion list \<Rightarrow> MemSSA \<Rightarrow> error + (MemRegion list \<times> MemSSA)" where
  "renameEdges [] memRegs s = Inr (memRegs, s)"
| "renameEdges (Load load # rest) memRegs s =
    bindE (RenameMuSet (load2MuSetMap s load) s) (\<lambda>mus.
    renameEdges rest memRegs (s\<lparr>load2MuSetMap := (load2MuSetMap s)(load := mus)\<rparr>))"
| "renameEdges (Store store # rest) memRegs s =
    bindE (RenameChiSet (store2ChiSetMap s store) memRegs s) (\<lambda>(chis, memRegs1, s1).
    renameEdges rest memRegs1 (s1\<lparr>store2ChiSetMap := (store2ChiSetMap s1)(store := chis)\<rparr>))"
| "renameEdges (OtherPE # rest) memRegs s = renameEdges rest memRegs s"

text \<open>
  One turn of the loop over the instructions of the block: the PAG edges, then the
  call site (its mus, then its chis), otherwise the return mus at a return.
\<close>

definition renameInst ::
  "MRGenerator \<Rightarrow> Program \<Rightarrow> BasicBlock \<Rightarrow> Instruction \<Rightarrow> MemRegion list \<Rightarrow> MemSSA
    \<Rightarrow> error + (MemRegion list \<times> MemSSA)" where
  "renameInst g p bb inst memRegs s =
    bindE (case pagEdgeList inst of
             None \<Rightarrow> Inr (memRegs, s)
           | Some edges \<Rightarrow> renameEdges edges memRegs s) (\<lambda>(memRegs1, s1).
    case callSite inst of
      Some cs \<Rightarrow>
        bindE (case getCallSiteRefMRSet g cs of
                 None \<Rightarrow> Inr s1
               | Some _ \<Rightarrow>
                   bindE (RenameMuSet (callsiteToMuSetMap s1 cs) s1) (\<lambda>mus.
                   Inr (s1\<lparr>callsiteToMuSetMap := (callsiteToMuSetMap s1)(cs := mus)\<rparr>))) (\<lambda>s2.
        case getCallSiteModMRSet g cs of
          None \<Rightarrow> Inr (memRegs1, s2)
        | Some _ \<Rightarrow>
            bindE (RenameChiSet (callsiteToChiSetMap s2 cs) memRegs1 s2) (\<lambda>(chis, memRegs2, s3).
            Inr (memRegs2, s3\<lparr>callsiteToChiSetMap := (callsiteToChiSetMap s3)(cs := chis)\<rparr>)))
    | None \<Rightarrow>
        if isReturn inst
        then bindE (RenameMuSet (funToReturnMuSetMap s1 (getParent p bb)) s1) (\<lambda>mus.
             Inr (memRegs1,
                  s1\<lparr>funToReturnMuSetMap := (funToReturnMuSetMap s1)(getParent p bb := mus)\<rparr>))
        else Inr (memRegs1, s1))"

fun renameInsts ::
  "MRGenerator \<Rightarrow> Program \<Rightarrow> BasicBlock \<Rightarrow> Instruction list \<Rightarrow> MemRegion list \<Rightarrow> MemSSA
    \<Rightarrow> error + (MemRegion list \<times> MemSSA)" where
  "renameInsts g p bb [] memRegs s = Inr (memRegs, s)"
| "renameInsts g p bb (inst # rest) memRegs s =
    bindE (renameInst g p bb inst memRegs s) (\<lambda>(memRegs1, s1).
    renameInsts g p bb rest memRegs1 s1)"

text \<open>The phi results of the block, when it has a phi set.\<close>

definition renamePhiResults ::
  "BasicBlock \<Rightarrow> MemRegion list \<Rightarrow> MemSSA \<Rightarrow> error + (MemRegion list \<times> MemSSA)" where
  "renamePhiResults bb memRegs s =
    (case bb2PhiSetMap s bb of
      None \<Rightarrow> Inr (memRegs, s)
    | Some phis \<Rightarrow>
        bindE (RenamePhiRes phis memRegs s) (\<lambda>(phis', memRegs1, s1).
        Inr (memRegs1, s1\<lparr>bb2PhiSetMap := (bb2PhiSetMap s1)(bb \<mapsto> phis')\<rparr>)))"

text \<open>The loop over the successors: the operand slot of this block in their phis.\<close>

fun fillSuccPhiOps :: "Program \<Rightarrow> BasicBlock \<Rightarrow> BasicBlock list \<Rightarrow> MemSSA \<Rightarrow> error + MemSSA" where
  "fillSuccPhiOps p bb [] s = Inr s"
| "fillSuccPhiOps p bb (succ # rest) s =
    (let pos = getBBPredecessorPos p bb succ
     in case bb2PhiSetMap s succ of
          None \<Rightarrow> fillSuccPhiOps p bb rest s
        | Some phis \<Rightarrow>
            bindE (RenamePhiOps phis pos s) (\<lambda>phis'.
            fillSuccPhiOps p bb rest (s\<lparr>bb2PhiSetMap := (bb2PhiSetMap s)(succ \<mapsto> phis')\<rparr>)))"

text \<open>
  \<^verbatim>\<open>SSARenameBB\<close> up to the walk of the dominator tree: phi results, instructions,
  phi operands of the successors. The result carries \<open>memRegs\<close>.
\<close>

definition renameBlock ::
  "MRGenerator \<Rightarrow> Program \<Rightarrow> BasicBlock \<Rightarrow> MemSSA \<Rightarrow> error + (MemRegion list \<times> MemSSA)" where
  "renameBlock g p bb s =
    bindE (renamePhiResults bb [] s) (\<lambda>(memRegs1, s1).
    bindE (renameInsts g p bb (instructions p bb) memRegs1 s1) (\<lambda>(memRegs2, s2).
    bindE (fillSuccPhiOps p bb (successors p bb) s2) (\<lambda>s3.
    Inr (memRegs2, s3))))"

text \<open>
  The last loop of \<^verbatim>\<open>SSARenameBB\<close>: one \<^verbatim>\<open>pop_back\<close> on the stack of every recorded
  region, from the back of \<open>memRegs\<close>. \<^verbatim>\<open>pop_back\<close> on an empty vector is undefined.
\<close>

function popVerStacks :: "MemRegion list \<Rightarrow> MemSSA \<Rightarrow> error + MemSSA" where
  "popVerStacks memRegs s =
    (if memRegs = [] then Inr s
     else (let mr = last memRegs; memRegs1 = butlast memRegs
           in case mr2VerStackMap s mr of
                None \<Rightarrow> Inl (UndefinedBehaviour ''pop_back on an empty vector'')
              | Some stack \<Rightarrow>
                  if stack = [] then Inl (UndefinedBehaviour ''pop_back on an empty vector'')
                  else popVerStacks memRegs1
                         (s\<lparr>mr2VerStackMap := (mr2VerStackMap s)(mr \<mapsto> butlast stack)\<rparr>)))"
  by pat_completeness auto

termination popVerStacks
  by (relation "measure (\<lambda>(memRegs, s). length memRegs)") auto

text \<open>
  \<^verbatim>\<open>dt->getNode(bb)\<close>: the node of the block in the tree, if there is one. The tree
  of LLVM holds one node for a block, so the search returns the first it meets.
\<close>

fun getNode :: "DominatorTree \<Rightarrow> BasicBlock \<Rightarrow> DomTreeNode option"
  and getNodeIn :: "DomTreeNode list \<Rightarrow> BasicBlock \<Rightarrow> DomTreeNode option" where
  "getNode (DomTreeNode b cs) bb = (if b = bb then Some (DomTreeNode b cs) else getNodeIn cs bb)"
| "getNodeIn [] bb = None"
| "getNodeIn (c # cs) bb =
    (case getNode c bb of Some n \<Rightarrow> Some n | None \<Rightarrow> getNodeIn cs bb)"

text \<open>
  \<^verbatim>\<open>SSARenameBB\<close>. The recursion of the source goes through the children of the
  block's node, calling itself on the block of each child; the node of that block
  is the child itself, so the model recurses on the child node. \<open>SSARenameNode\<close>
  is the call on a block whose node is known, \<open>SSARenameChildren\<close> the loop over the
  children, and \<open>SSARenameBB\<close> the call on a block: without a node the loop over the
  children is skipped. Lemma \<open>SSARenameBB_recursion\<close> below states the recursion as
  the source writes it, for a tree in which no block has two nodes.
\<close>

fun SSARenameNode :: "MRGenerator \<Rightarrow> Program \<Rightarrow> DomTreeNode \<Rightarrow> MemSSA \<Rightarrow> error + MemSSA"
  and SSARenameChildren :: "MRGenerator \<Rightarrow> Program \<Rightarrow> DomTreeNode list \<Rightarrow> MemSSA \<Rightarrow> error + MemSSA" where
  "SSARenameNode g p (DomTreeNode bb cs) s =
    bindE (renameBlock g p bb s) (\<lambda>(memRegs, s1).
    bindE (SSARenameChildren g p cs s1) (\<lambda>s2.
    popVerStacks memRegs s2))"
| "SSARenameChildren g p [] s = Inr s"
| "SSARenameChildren g p (c # cs) s =
    bindE (SSARenameNode g p c s) (\<lambda>s1. SSARenameChildren g p cs s1)"

definition SSARenameBB ::
  "MRGenerator \<Rightarrow> Program \<Rightarrow> DominatorTree \<Rightarrow> BasicBlock \<Rightarrow> MemSSA \<Rightarrow> error + MemSSA" where
  "SSARenameBB g p dt bb s =
    (case getNode dt bb of
      Some dtNode \<Rightarrow> SSARenameNode g p dtNode s
    | None \<Rightarrow>
        bindE (renameBlock g p bb s) (\<lambda>(memRegs, s1).
        popVerStacks memRegs s1))"

definition SSARename ::
  "MRGenerator \<Rightarrow> Program \<Rightarrow> DominatorTree \<Rightarrow> SVFFunction \<Rightarrow> MemSSA \<Rightarrow> error + MemSSA" where
  "SSARename g p dt f s = SSARenameBB g p dt (getEntryBlock f) s"

subsection \<open>buildMemSSA\<close>

text \<open>
  The assertion on \<^verbatim>\<open>isExtCall\<close>, then \<^verbatim>\<open>setCurrentDFDT\<close> and the three passes. The
  dominance frontier and the dominator tree that \<^verbatim>\<open>setCurrentDFDT\<close> stores, and that
  \<^verbatim>\<open>getDF\<close> and \<^verbatim>\<open>getDT\<close> hand to the passes, are the parameters \<open>df\<close> and \<open>dt\<close>; both
  are taken as given objects (a null pointer is not modelled). The clock readings
  for the statistics are left out.
\<close>

definition buildMemSSA ::
  "MRGenerator \<Rightarrow> Program \<Rightarrow> SVFFunction \<Rightarrow> DominanceFrontier \<Rightarrow> DominatorTree \<Rightarrow> MemSSA
    \<Rightarrow> error + MemSSA" where
  "buildMemSSA g p f df dt s =
    (if isExtCall f
     then Inl (AssertionFailure ''we do not build memory ssa for external functions'')
     else bindE (createMUCHI p g f (setCurrentDFDT s)) (\<lambda>s1.
          SSARename g p dt f (insertPHI df s1)))"


subsection \<open>Two functions to run the construction on\<close>

text \<open>
  A diamond: block 0 branches to blocks 1 and 2, which both continue at block 3.
  Block 1 stores to region 0; block 3 loads from it and returns. The function uses
  no other region.
\<close>

definition diamondProg :: Program where
  "diamondProg =
    \<lparr> instructions = (\<lambda>bb.
        if bb = 1 then [\<lparr>pagEdgeList = Some [Store 0], callSite = None, isReturn = False\<rparr>]
        else if bb = 3 then [\<lparr>pagEdgeList = Some [Load 0], callSite = None, isReturn = False\<rparr>,
                             \<lparr>pagEdgeList = None, callSite = None, isReturn = True\<rparr>]
        else []),
      successors = (\<lambda>bb. if bb = 0 then [1, 2] else if bb = 1 \<or> bb = 2 then [3] else []),
      getBBPredecessorPos = (\<lambda>bb succ. if bb = 2 \<and> succ = 3 then 1 else 0),
      getParent = (\<lambda>_. 0) \<rparr>"

definition diamondGen :: MRGenerator where
  "diamondGen =
    \<lparr> getLoadMRSet = (\<lambda>_. [0]), getStoreMRSet = (\<lambda>_. [0]),
      getCallSiteRefMRSet = (\<lambda>_. None), getCallSiteModMRSet = (\<lambda>_. None) \<rparr>"

definition diamondFun :: SVFFunction where
  "diamondFun =
    \<lparr> funId = 0, isExtCall = False, getEntryBlock = 0, reachableBBs = [0, 1, 2, 3],
      functionDoesNotRet = False \<rparr>"

definition diamondDF :: DominanceFrontier where
  "diamondDF = [(0, []), (1, [3]), (2, [3]), (3, [])]"

definition diamondDT :: DominatorTree where
  "diamondDT = DomTreeNode 0 [DomTreeNode 1 [], DomTreeNode 2 [], DomTreeNode 3 []]"

text \<open>A declaration without a body, as \<^verbatim>\<open>isExtCall\<close> reports it.\<close>

definition externalFun :: SVFFunction where
  "externalFun =
    \<lparr> funId = 1, isExtCall = True, getEntryBlock = 10, reachableBBs = [],
      functionDoesNotRet = False \<rparr>"

text \<open>
  A second function of the same module: one block (block 20) without instructions
  and without successors. Its dominator tree is the single node of its block and
  its dominance frontier is empty.
\<close>

definition leafFun :: SVFFunction where
  "leafFun =
    \<lparr> funId = 2, isExtCall = False, getEntryBlock = 20, reachableBBs = [20],
      functionDoesNotRet = False \<rparr>"

text \<open>A dominator tree that has no node for any block of the diamond.\<close>

definition staleDT :: DominatorTree where
  "staleDT = DomTreeNode 9 []"

section \<open>Lemmas about the passes\<close>

subsection \<open>newSSAName and the entry chis\<close>

lemma newSSAName_Inr:
  "newSSAName mr d s = Inr (v, s') \<longleftrightarrow>
     (\<exists>c st. mr2CounterMap s mr = Some c \<and> mr2VerStackMap s mr = Some st \<and>
        v = \<lparr>ver_mr = mr, ver_version = c, ver_def = d\<rparr> \<and>
        s' = s\<lparr>mr2CounterMap := (mr2CounterMap s)(mr \<mapsto> c + 1),
               mr2VerStackMap := (mr2VerStackMap s)(mr \<mapsto> st @ [v])\<rparr>)"
  by (auto simp: newSSAName_def Let_def split: option.splits)

lemma newSSAName_Inl:
  "newSSAName mr d s = Inl e \<longleftrightarrow>
     (mr2CounterMap s mr = None \<and> e = AssertionFailure ''did not find initial version in map? '') \<or>
     (mr2CounterMap s mr \<noteq> None \<and> mr2VerStackMap s mr = None \<and>
        e = AssertionFailure ''did not find initial stack in map? '')"
  by (auto simp: newSSAName_def Let_def split: option.splits)

text \<open>
  The versions and the entry chi that the second loop of \<^verbatim>\<open>createMUCHI\<close> builds for a
  region, and the state the loop ends in: written out, to be compared with the loop.
\<close>

definition entryVer :: "SVFFunction \<Rightarrow> MemRegion \<Rightarrow> MRVERSION \<Rightarrow> MRVer" where
  "entryVer f mr n = \<lparr>ver_mr = mr, ver_version = n, ver_def = ENTRYCHI (funId f) mr\<rparr>"

definition entryChiOf :: "SVFFunction \<Rightarrow> MemRegion \<Rightarrow> CHI" where
  "entryChiOf f mr =
    \<lparr>chi_def = ENTRYCHI (funId f) mr, chi_mr = mr,
     chi_opVer = Some (entryVer f mr 0), chi_resVer = Some (entryVer f mr 1)\<rparr>"

definition entryState :: "SVFFunction \<Rightarrow> MemRegion list \<Rightarrow> MemSSA \<Rightarrow> MemSSA" where
  "entryState f mrs s =
    s\<lparr>mr2CounterMap := (\<lambda>mr. if mr \<in> set mrs then Some 2 else mr2CounterMap s mr),
      mr2VerStackMap :=
        (\<lambda>mr. if mr \<in> set mrs then Some [entryVer f mr 0, entryVer f mr 1] else mr2VerStackMap s mr),
      funToEntryChiSetMap :=
        (funToEntryChiSetMap s)(funId f := funToEntryChiSetMap s (funId f) @ map (entryChiOf f) mrs),
      funToReturnMuSetMap :=
        (if functionDoesNotRet f then funToReturnMuSetMap s
         else (funToReturnMuSetMap s)(funId f := funToReturnMuSetMap s (funId f) @ map newMU mrs))\<rparr>"

lemma createMUCHI_entry_eq: "createMUCHI_entry f mrs s = Inr (entryState f mrs s)"
proof (induction mrs arbitrary: s)
  case Nil
  show ?case by (simp add: entryState_def)
next
  case (Cons mr rest)
  show ?case
    apply (simp add: newSSAName_def Let_def Cons.IH newCHI_def)
    apply (simp add: entryState_def entryChiOf_def entryVer_def fun_eq_iff)
    done
qed

subsection \<open>The first loop of createMUCHI builds nodes only\<close>

lemma fold_preserves:
  assumes "\<And>x s. P s \<Longrightarrow> P (f x s)" and "P s"
  shows "P (fold f xs s)"
  using assms(2) by (induction xs arbitrary: s) (simp_all add: assms(1))

text \<open>
  What the first loop of \<^verbatim>\<open>createMUCHI\<close> leaves alone; it also keeps the used regions
  free of duplicates.
\<close>

definition buildsNodesOnly :: "MemSSA \<Rightarrow> MemSSA \<Rightarrow> bool" where
  "buildsNodesOnly s s1 \<longleftrightarrow>
     funToEntryChiSetMap s1 = funToEntryChiSetMap s \<and>
     funToReturnMuSetMap s1 = funToReturnMuSetMap s \<and>
     mr2CounterMap s1 = mr2CounterMap s \<and>
     mr2VerStackMap s1 = mr2VerStackMap s \<and>
     bb2PhiSetMap s1 = bb2PhiSetMap s \<and>
     warnings s1 = warnings s \<and>
     (distinct (usedRegs s) \<longrightarrow> distinct (usedRegs s1))"

lemma buildsNodesOnly_refl: "buildsNodesOnly s s"
  by (simp add: buildsNodesOnly_def)

lemma buildsNodesOnly_upd [simp]:
  "buildsNodesOnly s0 (s\<lparr>load2MuSetMap := a\<rparr>) = buildsNodesOnly s0 s"
  "buildsNodesOnly s0 (s\<lparr>store2ChiSetMap := b\<rparr>) = buildsNodesOnly s0 s"
  "buildsNodesOnly s0 (s\<lparr>callsiteToMuSetMap := c\<rparr>) = buildsNodesOnly s0 s"
  "buildsNodesOnly s0 (s\<lparr>callsiteToChiSetMap := d\<rparr>) = buildsNodesOnly s0 s"
  "buildsNodesOnly s0 (s\<lparr>varKills := e\<rparr>) = buildsNodesOnly s0 s"
  by (simp_all add: buildsNodesOnly_def)

lemma collectUse_nodes: "buildsNodesOnly s0 s \<Longrightarrow> buildsNodesOnly s0 (collectUse mr s)"
  by (simp add: buildsNodesOnly_def collectUse_def)

lemma collectDef_nodes: "buildsNodesOnly s0 s \<Longrightarrow> buildsNodesOnly s0 (collectDef bb mr s)"
  by (simp add: buildsNodesOnly_def collectDef_def Let_def)

lemma AddLoadMU_nodes: "buildsNodesOnly s0 s \<Longrightarrow> buildsNodesOnly s0 (AddLoadMU bb load mrs s)"
  unfolding AddLoadMU_def
  by (rule fold_preserves) (simp_all add: collectUse_nodes)

lemma AddStoreCHI_nodes: "buildsNodesOnly s0 s \<Longrightarrow> buildsNodesOnly s0 (AddStoreCHI bb store mrs s)"
  unfolding AddStoreCHI_def
  by (rule fold_preserves) (simp_all add: collectDef_nodes)

lemma AddCallSiteMU_nodes: "buildsNodesOnly s0 s \<Longrightarrow> buildsNodesOnly s0 (AddCallSiteMU cs mrs s)"
  unfolding AddCallSiteMU_def
  by (rule fold_preserves) (simp_all add: collectUse_nodes)

lemma AddCallSiteCHI_nodes: "buildsNodesOnly s0 s \<Longrightarrow> buildsNodesOnly s0 (AddCallSiteCHI bb cs mrs s)"
  unfolding AddCallSiteCHI_def
  by (rule fold_preserves) (simp_all add: collectDef_nodes)

lemma createMUCHI_edge_nodes: "buildsNodesOnly s0 s \<Longrightarrow> buildsNodesOnly s0 (createMUCHI_edge g bb e s)"
  by (cases e) (simp_all add: createMUCHI_edge_def AddLoadMU_nodes AddStoreCHI_nodes)

lemma createMUCHI_inst_nodes: "buildsNodesOnly s0 s \<Longrightarrow> buildsNodesOnly s0 (createMUCHI_inst g bb inst s)"
  unfolding createMUCHI_inst_def Let_def
  by (auto split: option.splits
      intro!: AddCallSiteMU_nodes AddCallSiteCHI_nodes fold_preserves[where P="buildsNodesOnly s0"] createMUCHI_edge_nodes)

lemma createMUCHI_block_nodes: "buildsNodesOnly s0 s \<Longrightarrow> buildsNodesOnly s0 (createMUCHI_block p g bb s)"
  unfolding createMUCHI_block_def
  by (rule fold_preserves) (simp_all add: createMUCHI_inst_nodes)

lemma createMUCHI_blocks_nodes: "buildsNodesOnly s (fold (createMUCHI_block p g) bbs s)"
  by (rule fold_preserves) (simp_all add: createMUCHI_block_nodes buildsNodesOnly_refl)

lemma createMUCHI_eq:
  "createMUCHI p g f s =
     Inr (entryState f (usedRegs (fold (createMUCHI_block p g) (reachableBBs f) s))
            (fold (createMUCHI_block p g) (reachableBBs f) s))"
  by (simp add: createMUCHI_def Let_def createMUCHI_entry_eq)

lemma usedRegs_entryState [simp]: "usedRegs (entryState f mrs s) = usedRegs s"
  by (simp add: entryState_def)

lemma length_filter_eq_distinct:
  "distinct xs \<Longrightarrow> length (filter (\<lambda>x. x = a) xs) = (if a \<in> set xs then 1 else 0)"
  by (induction xs) auto

text \<open>The number of entry chis, and of return mus, that a function has for a region.\<close>

definition entryChiCount :: "MemSSA \<Rightarrow> nat \<Rightarrow> MemRegion \<Rightarrow> nat" where
  "entryChiCount s fid mr = length (filter (\<lambda>chi. chi_mr chi = mr) (funToEntryChiSetMap s fid))"

definition returnMuCount :: "MemSSA \<Rightarrow> nat \<Rightarrow> MemRegion \<Rightarrow> nat" where
  "returnMuCount s fid mr = length (filter (\<lambda>mu. mu_mr mu = mr) (funToReturnMuSetMap s fid))"

lemma filter_map_entryChiOf:
  "filter (\<lambda>chi. chi_mr chi = mr) (map (entryChiOf f) mrs) = map (entryChiOf f) (filter (\<lambda>x. x = mr) mrs)"
  by (induction mrs) (auto simp: entryChiOf_def)

lemma filter_map_newMU:
  "filter (\<lambda>mu. mu_mr mu = mr) (map newMU mrs) = map newMU (filter (\<lambda>x. x = mr) mrs)"
  by (induction mrs) (auto simp: newMU_def)


subsection \<open>The invariant of renaming\<close>

text \<open>
  The effect of the pop loop on the stacks alone, region by region from the front of
  the list; \<open>None\<close> when a stack to pop is missing or empty.
\<close>

fun popFront :: "MemRegion list \<Rightarrow> (MemRegion \<Rightarrow> MRVer list option) \<Rightarrow> (MemRegion \<Rightarrow> MRVer list option) option" where
  "popFront [] S = Some S"
| "popFront (mr # ms) S =
    (case S mr of
      None \<Rightarrow> None
    | Some st \<Rightarrow> if st = [] then None else popFront ms (S(mr \<mapsto> butlast st)))"

lemma popVerStacks_Nil [simp]: "popVerStacks [] s = Inr s"
  by simp

lemma popVerStacks_snoc:
  "popVerStacks (ms @ [mr]) s =
    (case mr2VerStackMap s mr of
      None \<Rightarrow> Inl (UndefinedBehaviour ''pop_back on an empty vector'')
    | Some st \<Rightarrow>
        if st = [] then Inl (UndefinedBehaviour ''pop_back on an empty vector'')
        else popVerStacks ms (s\<lparr>mr2VerStackMap := (mr2VerStackMap s)(mr \<mapsto> butlast st)\<rparr>))"
  by (subst popVerStacks.simps) (simp add: Let_def)

declare popVerStacks.simps [simp del]

lemma popVerStacks_popFront:
  "popVerStacks ms s =
    (case popFront (rev ms) (mr2VerStackMap s) of
      None \<Rightarrow> Inl (UndefinedBehaviour ''pop_back on an empty vector'')
    | Some S \<Rightarrow> Inr (s\<lparr>mr2VerStackMap := S\<rparr>))"
proof (induction ms arbitrary: s rule: rev_induct)
  case Nil
  show ?case by simp
next
  case (snoc mr ms)
  show ?case
    by (simp add: popVerStacks_snoc snoc.IH del: fun_upd_apply split: option.splits)
qed

lemma bindE_InrE:
  assumes "bindE m f = Inr y"
  obtains x where "m = Inr x" and "f x = Inr y"
  using assms by (auto simp: bindE_eq_Inr)

text \<open>
  Popping the regions of a list shortens every stack by the number of times its
  region stands in the list.
\<close>

lemma popFront_count:
  "popFront ms S1 = Some S0 \<Longrightarrow> S1 r = Some st1 \<Longrightarrow>
     \<exists>st. S0 r = Some st \<and> length st1 = length st + count_list ms r"
proof (induction ms arbitrary: S1 st1)
  case Nil
  then show ?case by simp
next
  case (Cons mr ms)
  from Cons.prems(1) obtain stm where m: "S1 mr = Some stm" and ne: "stm \<noteq> []"
    and p: "popFront ms (S1(mr \<mapsto> butlast stm)) = Some S0"
    by (auto split: option.splits if_splits)
  show ?case
  proof (cases "r = mr")
    case True
    from Cons.IH[OF p, of "butlast stm"] True
    obtain st where "S0 r = Some st" "length (butlast stm) = length st + count_list ms r"
      by auto
    moreover from m True Cons.prems(2) have "st1 = stm" by simp
    ultimately show ?thesis using ne True by (cases stm rule: rev_cases) auto
  next
    case False
    with Cons.IH[OF p, of st1] Cons.prems(2) show ?thesis by auto
  qed
qed

lemma count_list_rev_eq: "count_list (rev xs) x = count_list xs x"
  by (induction xs) (simp_all add: count_list_append)

text \<open>No version counter of \<open>s\<close> is lost or lower in \<open>s'\<close>.\<close>

definition counterLe :: "MemSSA \<Rightarrow> MemSSA \<Rightarrow> bool" where
  "counterLe s s' \<longleftrightarrow>
     (\<forall>mr c. mr2CounterMap s mr = Some c \<longrightarrow> (\<exists>c'. mr2CounterMap s' mr = Some c' \<and> c \<le> c'))"

lemma counterLe_refl [simp]: "counterLe s s"
  by (simp add: counterLe_def)

lemma counterLe_trans: "counterLe s1 s2 \<Longrightarrow> counterLe s2 s3 \<Longrightarrow> counterLe s1 s3"
  unfolding counterLe_def by (meson le_trans)

text \<open>
  The invariant of \<^verbatim>\<open>SSARenameBB\<close>, from the state \<open>s0\<close> at the head of the call to a
  later state \<open>s\<close> with the regions \<open>ms\<close> recorded: popping the recorded regions
  from the stacks of \<open>s\<close> gives the stacks of \<open>s0\<close>; no counter has gone down; the
  used regions are the same.
\<close>

definition renaming :: "MemSSA \<Rightarrow> MemRegion list \<Rightarrow> MemSSA \<Rightarrow> bool" where
  "renaming s0 ms s \<longleftrightarrow>
     popFront (rev ms) (mr2VerStackMap s) = Some (mr2VerStackMap s0) \<and> counterLe s0 s \<and>
     usedRegs s = usedRegs s0"

lemma renaming_start [simp]: "renaming s [] s"
  by (simp add: renaming_def)

lemma renaming_upd [simp]:
  "renaming s0 ms (s\<lparr>load2MuSetMap := a\<rparr>) = renaming s0 ms s"
  "renaming s0 ms (s\<lparr>store2ChiSetMap := b\<rparr>) = renaming s0 ms s"
  "renaming s0 ms (s\<lparr>callsiteToMuSetMap := c\<rparr>) = renaming s0 ms s"
  "renaming s0 ms (s\<lparr>callsiteToChiSetMap := d\<rparr>) = renaming s0 ms s"
  "renaming s0 ms (s\<lparr>funToReturnMuSetMap := e\<rparr>) = renaming s0 ms s"
  "renaming s0 ms (s\<lparr>bb2PhiSetMap := h\<rparr>) = renaming s0 ms s"
  by (simp_all add: renaming_def counterLe_def)

lemma newSSAName_renaming:
  assumes "newSSAName mr d s = Inr (v, s')" and "renaming s0 ms s"
  shows "renaming s0 (ms @ [mr]) s'"
proof -
  from assms(1) obtain c st where c: "mr2CounterMap s mr = Some c"
    and st: "mr2VerStackMap s mr = Some st"
    and s': "s' = s\<lparr>mr2CounterMap := (mr2CounterMap s)(mr \<mapsto> c + 1),
               mr2VerStackMap := (mr2VerStackMap s)(mr \<mapsto> st @ [v])\<rparr>"
    by (auto simp: newSSAName_Inr)
  have "(mr2VerStackMap s)(mr \<mapsto> st) = mr2VerStackMap s"
    using st by (rule map_upd_triv)
  moreover have "counterLe s s'"
    using c by (auto simp: counterLe_def s')
  ultimately show ?thesis
    using assms(2) by (auto simp: renaming_def s' intro: counterLe_trans)
qed

lemma RenameChiSet_renaming:
  "RenameChiSet chis ms s = Inr (chis', ms', s') \<Longrightarrow> renaming s0 ms s \<Longrightarrow> renaming s0 ms' s'"
proof (induction chis arbitrary: ms s chis' ms' s')
  case Nil
  then show ?case by simp
next
  case (Cons chi rest)
  from Cons.prems(1) obtain opv resv s1 rest' where
    n: "newSSAName (chi_mr chi) (chi_def chi) s = Inr (resv, s1)"
    and r: "RenameChiSet rest (ms @ [chi_mr chi]) s1 = Inr (rest', ms', s')"
    by (auto simp: bindE_eq_Inr)
  from Cons.IH[OF r newSSAName_renaming[OF n Cons.prems(2)]] show ?case .
qed

lemma RenamePhiRes_renaming:
  "RenamePhiRes phis ms s = Inr (phis', ms', s') \<Longrightarrow> renaming s0 ms s \<Longrightarrow> renaming s0 ms' s'"
proof (induction phis arbitrary: ms s phis' ms' s')
  case Nil
  then show ?case by simp
next
  case (Cons phi rest)
  from Cons.prems(1) obtain resv s1 rest' where
    n: "newSSAName (phi_mr phi) (MSSAPHI (phi_bb phi) (phi_mr phi)) s = Inr (resv, s1)"
    and r: "RenamePhiRes rest (ms @ [phi_mr phi]) s1 = Inr (rest', ms', s')"
    by (auto simp: bindE_eq_Inr)
  from Cons.IH[OF r newSSAName_renaming[OF n Cons.prems(2)]] show ?case .
qed

lemma renameEdges_renaming:
  "renameEdges es ms s = Inr (ms', s') \<Longrightarrow> renaming s0 ms s \<Longrightarrow> renaming s0 ms' s'"
proof (induction es ms s rule: renameEdges.induct)
  case (1 memRegs s)
  then show ?case by simp
next
  case (2 load rest memRegs s)
  then show ?case by (auto simp: bindE_eq_Inr)
next
  case (3 store rest memRegs s)
  from "3.prems"(1) obtain chis ms1 s1 where
    c: "RenameChiSet (store2ChiSetMap s store) memRegs s = Inr (chis, ms1, s1)"
    and r: "renameEdges rest ms1 (s1\<lparr>store2ChiSetMap := (store2ChiSetMap s1)(store := chis)\<rparr>) = Inr (ms', s')"
    by (auto elim!: bindE_InrE)
  from RenameChiSet_renaming[OF c "3.prems"(2)] have "renaming s0 ms1 s1" .
  then have "renaming s0 ms1 (s1\<lparr>store2ChiSetMap := (store2ChiSetMap s1)(store := chis)\<rparr>)"
    by simp
  from "3.IH"[OF c refl refl r this] show ?case .
next
  case (4 rest memRegs s)
  then show ?case by simp
qed

lemma renameInst_renaming:
  "renameInst g p bb inst ms s = Inr (ms', s') \<Longrightarrow> renaming s0 ms s \<Longrightarrow> renaming s0 ms' s'"
  unfolding renameInst_def
  by (fastforce elim!: bindE_InrE split: option.splits if_splits
      intro: renameEdges_renaming RenameChiSet_renaming)

lemma renameInsts_renaming:
  "renameInsts g p bb insts ms s = Inr (ms', s') \<Longrightarrow> renaming s0 ms s \<Longrightarrow> renaming s0 ms' s'"
proof (induction insts arbitrary: ms s)
  case Nil
  then show ?case by simp
next
  case (Cons inst rest)
  then show ?case by (auto elim!: bindE_InrE intro: renameInst_renaming)
qed

lemma renamePhiResults_renaming:
  "renamePhiResults bb ms s = Inr (ms', s') \<Longrightarrow> renaming s0 ms s \<Longrightarrow> renaming s0 ms' s'"
  unfolding renamePhiResults_def
  by (auto elim!: bindE_InrE split: option.splits intro: RenamePhiRes_renaming)

lemma fillSuccPhiOps_renaming:
  "fillSuccPhiOps p bb succs s = Inr s' \<Longrightarrow> renaming s0 ms s \<Longrightarrow> renaming s0 ms s'"
proof (induction succs arbitrary: s)
  case Nil
  then show ?case by simp
next
  case (Cons succ rest)
  then show ?case by (auto elim!: bindE_InrE simp: Let_def split: option.splits)
qed

lemma renameBlock_renaming:
  assumes "renameBlock g p bb s = Inr (ms, s')"
  shows "renaming s ms s'"
proof -
  from assms obtain ms1 s1 s2 where
    a: "renamePhiResults bb [] s = Inr (ms1, s1)"
    and b: "renameInsts g p bb (instructions p bb) ms1 s1 = Inr (ms, s2)"
    and c: "fillSuccPhiOps p bb (successors p bb) s2 = Inr s'"
    unfolding renameBlock_def by (auto elim!: bindE_InrE)
  from renamePhiResults_renaming[OF a renaming_start] have "renaming s ms1 s1" .
  from renameInsts_renaming[OF b this] have "renaming s ms s2" .
  from fillSuccPhiOps_renaming[OF c this] show ?thesis .
qed

lemma popVerStacks_renaming:
  assumes "renaming s0 ms s1" and "mr2VerStackMap s2 = mr2VerStackMap s1"
  shows "popVerStacks ms s2 = Inr (s2\<lparr>mr2VerStackMap := mr2VerStackMap s0\<rparr>)"
  using assms by (simp add: popVerStacks_popFront renaming_def)

lemma renaming_count:
  assumes "renaming s0 ms s1" and "mr2VerStackMap s1 r = Some st1"
  shows "\<exists>st. mr2VerStackMap s0 r = Some st \<and> length st1 = length st + count_list ms r"
  using popFront_count[of "rev ms" "mr2VerStackMap s1" "mr2VerStackMap s0" r st1] assms
  by (simp add: renaming_def count_list_rev_eq)

lemma renaming_Nil_iff:
  "renaming s [] s' \<longleftrightarrow>
     mr2VerStackMap s' = mr2VerStackMap s \<and> counterLe s s' \<and> usedRegs s' = usedRegs s"
  by (simp add: renaming_def)

lemma renaming_pop:
  assumes "renaming s ms s1" and "renaming s1 [] s2"
  shows "renaming s [] (s2\<lparr>mr2VerStackMap := mr2VerStackMap s\<rparr>)"
proof -
  from assms have "counterLe s s1" "counterLe s1 s2" by (simp_all add: renaming_def)
  then have "counterLe s s2" by (rule counterLe_trans)
  then show ?thesis
    using assms by (simp add: renaming_def counterLe_def)
qed

text \<open>
  A walk of the dominator tree below a node that returns leaves every stack as it
  found it.
\<close>

lemma SSARename_tree_balanced:
  shows "SSARenameNode g p n s = Inr s' \<Longrightarrow> renaming s [] s'"
    and "SSARenameChildren g p cs s = Inr s' \<Longrightarrow> renaming s [] s'"
proof (induction g p n s and g p cs s arbitrary: s' and s'
    rule: SSARenameNode_SSARenameChildren.induct)
  case (1 g p bb cs s)
  from "1.prems" obtain ms s1 s2 where
    b: "renameBlock g p bb s = Inr (ms, s1)"
    and c: "SSARenameChildren g p cs s1 = Inr s2"
    and e: "popVerStacks ms s2 = Inr s'"
    by (auto elim!: bindE_InrE)
  from renameBlock_renaming[OF b] have r: "renaming s ms s1" .
  from "1.IH"[OF b refl c] have r2: "renaming s1 [] s2" .
  then have "mr2VerStackMap s2 = mr2VerStackMap s1" by (simp add: renaming_def)
  from popVerStacks_renaming[OF r this] e have "s' = s2\<lparr>mr2VerStackMap := mr2VerStackMap s\<rparr>"
    by simp
  with renaming_pop[OF r r2] show ?case by simp
next
  case (2 g p s)
  then show ?case by simp
next
  case (3 g p c cs s)
  from "3.prems" obtain s1 where
    a: "SSARenameNode g p c s = Inr s1" and b: "SSARenameChildren g p cs s1 = Inr s'"
    by (auto elim!: bindE_InrE)
  from "3.IH"(1)[OF a] "3.IH"(2)[OF a b] show ?case
    by (auto simp: renaming_Nil_iff intro: counterLe_trans)
qed

lemma SSARenameBB_balanced:
  assumes "SSARenameBB g p dt bb s = Inr s'"
  shows "renaming s [] s'"
proof (cases "getNode dt bb")
  case None
  with assms obtain ms s1 where
    b: "renameBlock g p bb s = Inr (ms, s1)" and e: "popVerStacks ms s1 = Inr s'"
    by (auto simp: SSARenameBB_def elim!: bindE_InrE)
  from renameBlock_renaming[OF b] have r: "renaming s ms s1" .
  from popVerStacks_renaming[OF r refl] e have "s' = s1\<lparr>mr2VerStackMap := mr2VerStackMap s\<rparr>"
    by simp
  with renaming_pop[OF r renaming_start] show ?thesis by simp
next
  case (Some n)
  with assms show ?thesis
    by (simp add: SSARenameBB_def SSARename_tree_balanced(1))
qed

subsection \<open>Unfolding the worklist loop\<close>

declare insertPHI_while.simps [simp del]

lemma insertPHI_while_Nil [simp]: "insertPHI_while df mr [] m s = (m, s)"
  by (subst insertPHI_while.simps) simp

lemma insertPHI_while_miss:
  "bbs \<noteq> [] \<Longrightarrow> map_of df (last bbs) = None \<Longrightarrow>
     insertPHI_while df mr bbs m s =
       insertPHI_while df mr (butlast bbs) m
         (writeWrnMsg ''bb not in the dominance frontier map??'' s)"
  by (subst insertPHI_while.simps) (simp add: Let_def)

lemma insertPHI_while_hit:
  "bbs \<noteq> [] \<Longrightarrow> map_of df (last bbs) = Some domSet \<Longrightarrow>
     insertPHI_domSet mr domSet m (butlast bbs) s = (m1, bbs1, s1) \<Longrightarrow>
     insertPHI_while df mr bbs m s = insertPHI_while df mr bbs1 m1 s1"
  by (subst insertPHI_while.simps) (simp add: Let_def)

subsection \<open>insertPHI changes the phi sets and the warnings only\<close>

definition phisOnly :: "MemSSA \<Rightarrow> MemSSA \<Rightarrow> bool" where
  "phisOnly s s' \<longleftrightarrow>
     usedRegs s' = usedRegs s \<and> reg2BBMap s' = reg2BBMap s \<and> varKills s' = varKills s \<and>
     mr2CounterMap s' = mr2CounterMap s \<and> mr2VerStackMap s' = mr2VerStackMap s \<and>
     load2MuSetMap s' = load2MuSetMap s \<and> store2ChiSetMap s' = store2ChiSetMap s \<and>
     callsiteToMuSetMap s' = callsiteToMuSetMap s \<and> callsiteToChiSetMap s' = callsiteToChiSetMap s \<and>
     funToEntryChiSetMap s' = funToEntryChiSetMap s \<and> funToReturnMuSetMap s' = funToReturnMuSetMap s"

lemma phisOnly_refl [simp]: "phisOnly s s"
  by (simp add: phisOnly_def)

lemma phisOnly_AddMSSAPHI: "phisOnly s0 s \<Longrightarrow> phisOnly s0 (AddMSSAPHI bb mr s)"
  by (simp add: phisOnly_def AddMSSAPHI_def)

lemma phisOnly_writeWrnMsg: "phisOnly s0 s \<Longrightarrow> phisOnly s0 (writeWrnMsg msg s)"
  by (simp add: phisOnly_def writeWrnMsg_def)

lemma phisOnly_domSet:
  "insertPHI_domSet mr domSet m bbs s = (m', bbs', s') \<Longrightarrow> phisOnly s0 s \<Longrightarrow> phisOnly s0 s'"
  by (induction domSet arbitrary: m bbs s) (auto split: if_splits intro: phisOnly_AddMSSAPHI)

lemma phisOnly_while:
  "insertPHI_while df mr bbs m s = (m', s') \<Longrightarrow> phisOnly s0 s \<Longrightarrow> phisOnly s0 s'"
proof (induction df mr bbs m s rule: insertPHI_while.induct)
  case (1 df mr bbs m s)
  show ?case
  proof (cases "bbs = []")
    case True
    with "1.prems" show ?thesis by simp
  next
    case False
    show ?thesis
    proof (cases "map_of df (last bbs)")
      case None
      with False "1.prems"(1) have
        "insertPHI_while df mr (butlast bbs) m (writeWrnMsg ''bb not in the dominance frontier map??'' s) = (m', s')"
        by (simp add: insertPHI_while_miss)
      from "1.IH"(1)[OF False refl refl None this phisOnly_writeWrnMsg[OF "1.prems"(2)]]
      show ?thesis .
    next
      case (Some domSet)
      obtain m1 bbs1 s1 where d: "insertPHI_domSet mr domSet m (butlast bbs) s = (m1, bbs1, s1)"
        by (cases "insertPHI_domSet mr domSet m (butlast bbs) s") auto
      with False Some "1.prems"(1) have w: "insertPHI_while df mr bbs1 m1 s1 = (m', s')"
        by (simp add: insertPHI_while_hit)
      from "1.IH"(2)[OF False refl refl Some d[symmetric] refl w phisOnly_domSet[OF d "1.prems"(2)]]
      show ?thesis .
    qed
  qed
qed


lemma phisOnly_regions:
  "insertPHI_regions df mrs m s = (m', s') \<Longrightarrow> phisOnly s0 s \<Longrightarrow> phisOnly s0 s'"
proof (induction mrs arbitrary: m s)
  case Nil
  then show ?case by simp
next
  case (Cons mr rest)
  obtain m1 s1 where w: "insertPHI_while df mr (reg2BBMap s mr) m s = (m1, s1)"
    by (cases "insertPHI_while df mr (reg2BBMap s mr) m s") auto
  with Cons.prems(1) have r: "insertPHI_regions df rest m1 s1 = (m', s')" by simp
  from Cons.IH[OF r phisOnly_while[OF w Cons.prems(2)]] show ?case .
qed

lemma phisOnly_insertPHI: "phisOnly s (insertPHI df s)"
proof -
  obtain m' s' where r: "insertPHI_regions df (usedRegs s) (\<lambda>_. {}) s = (m', s')"
    by (cases "insertPHI_regions df (usedRegs s) (\<lambda>_. {}) s") auto
  from phisOnly_regions[OF r phisOnly_refl] r show ?thesis
    by (simp add: insertPHI_def)
qed

subsection \<open>What insertPHI computes\<close>

text \<open>
  The phis at a block, and how many of them are phis of a region; the blocks that the
  local map of \<^verbatim>\<open>insertPHI\<close> records for a region.
\<close>

definition phisAt :: "MemSSA \<Rightarrow> BasicBlock \<Rightarrow> PHI list" where
  "phisAt s b = (case bb2PhiSetMap s b of None \<Rightarrow> [] | Some phis \<Rightarrow> phis)"

definition phiCount :: "MemSSA \<Rightarrow> BasicBlock \<Rightarrow> MemRegion \<Rightarrow> nat" where
  "phiCount s b mr = length (filter (\<lambda>phi. phi_mr phi = mr) (phisAt s b))"

definition marked :: "(BasicBlock \<Rightarrow> MemRegion set) \<Rightarrow> MemRegion \<Rightarrow> BasicBlock set" where
  "marked m mr = {b. mr \<in> m b}"

text \<open>
  The iterated dominance frontier, in the words of the spec: \<open>dfRel\<close> relates a block
  to the blocks of its frontier set, and the closure of a set of defining blocks is
  what one or more frontier steps reach from it.
\<close>

definition dfRel :: "DominanceFrontier \<Rightarrow> (BasicBlock \<times> BasicBlock) set" where
  "dfRel df = {(a, b). \<exists>domSet. map_of df a = Some domSet \<and> b \<in> set domSet}"

definition iteratedDF :: "DominanceFrontier \<Rightarrow> BasicBlock set \<Rightarrow> BasicBlock set" where
  "iteratedDF df D = (dfRel df)\<^sup>+ `` D"

lemma phisAt_AddMSSAPHI:
  "phisAt (AddMSSAPHI pbb mr s) b = phisAt s b @ (if b = pbb then [newPHI pbb mr] else [])"
  by (simp add: phisAt_def AddMSSAPHI_def)

lemma phisAt_writeWrnMsg [simp]: "phisAt (writeWrnMsg msg s) b = phisAt s b"
  by (simp add: phisAt_def writeWrnMsg_def)

lemma dfRel_Some: "map_of df a = Some domSet \<Longrightarrow> dfRel df `` {a} = set domSet"
  by (auto simp: dfRel_def)

lemma dfRel_None: "map_of df a = None \<Longrightarrow> dfRel df `` {a} = {}"
  by (auto simp: dfRel_def)

lemma dfRel_range: "(a, b) \<in> dfRel df \<Longrightarrow> b \<in> dfRange df"
  using map_of_dfRange by (auto simp: dfRel_def)

lemma iteratedDF_range: "iteratedDF df D \<subseteq> dfRange df"
proof
  fix b assume "b \<in> iteratedDF df D"
  then obtain a where "(a, b) \<in> (dfRel df)\<^sup>+" by (auto simp: iteratedDF_def)
  then show "b \<in> dfRange df"
    by (induction rule: trancl.induct) (auto dest: dfRel_range)
qed

lemma marked_upd:
  "marked (m(pbb := insert mr (m pbb))) r = (if r = mr then insert pbb (marked m mr) else marked m r)"
  by (auto simp: marked_def)

text \<open>
  One frontier set: the blocks without a phi of the region get one, are recorded and
  are pushed; nothing else changes.
\<close>

lemma insertPHI_domSet_effect:
  "insertPHI_domSet mr domSet m bbs s = (m', bbs', s') \<Longrightarrow>
     marked m' mr = marked m mr \<union> set domSet \<and>
     (\<forall>r. r \<noteq> mr \<longrightarrow> marked m' r = marked m r) \<and>
     set bbs' = set bbs \<union> (set domSet - marked m mr) \<and>
     (\<forall>b. phisAt s' b =
        phisAt s b @ (if b \<in> set domSet - marked m mr then [newPHI b mr] else [])) \<and>
     warnings s' = warnings s"
proof (induction domSet arbitrary: m bbs s)
  case Nil
  then show ?case by simp
next
  case (Cons pbb rest)
  show ?case
  proof (cases "mr \<in> m pbb")
    case True
    with Cons.prems have "insertPHI_domSet mr rest m bbs s = (m', bbs', s')" by simp
    from Cons.IH[OF this] True show ?thesis by (auto simp: marked_def)
  next
    case False
    let ?m1 = "m(pbb := insert mr (m pbb))"
    from False Cons.prems
    have "insertPHI_domSet mr rest ?m1 (bbs @ [pbb]) (AddMSSAPHI pbb mr s) = (m', bbs', s')"
      by simp
    from Cons.IH[OF this]
    have 1: "marked m' mr = marked ?m1 mr \<union> set rest"
      and 2: "\<forall>r. r \<noteq> mr \<longrightarrow> marked m' r = marked ?m1 r"
      and 3: "set bbs' = set (bbs @ [pbb]) \<union> (set rest - marked ?m1 mr)"
      and 4: "\<forall>b. phisAt s' b = phisAt (AddMSSAPHI pbb mr s) b @
                (if b \<in> set rest - marked ?m1 mr then [newPHI b mr] else [])"
      and 5: "warnings s' = warnings (AddMSSAPHI pbb mr s)"
      by blast+
    have mk: "marked ?m1 mr = insert pbb (marked m mr)" and nm: "pbb \<notin> marked m mr"
      using False by (auto simp: marked_def)
    have "marked m' mr = marked m mr \<union> set (pbb # rest)"
      using 1 mk by auto
    moreover have "\<forall>r. r \<noteq> mr \<longrightarrow> marked m' r = marked m r"
      using 2 by (simp add: marked_upd)
    moreover have "set bbs' = set bbs \<union> (set (pbb # rest) - marked m mr)"
      using 3 mk nm by auto
    moreover have "\<forall>b. phisAt s' b =
        phisAt s b @ (if b \<in> set (pbb # rest) - marked m mr then [newPHI b mr] else [])"
      using 4 mk nm by (auto simp: phisAt_AddMSSAPHI)
    moreover have "warnings s' = warnings s"
      using 5 by (simp add: AddMSSAPHI_def)
    ultimately show ?thesis by blast
  qed
qed

lemma set_butlast_last: "bbs \<noteq> [] \<Longrightarrow> set bbs = insert (last bbs) (set (butlast bbs))"
  by (metis append_butlast_last_id list.simps(15) rotate1.simps(2) set_rotate1)

lemma trancl_image_step:
  assumes "S \<subseteq> R `` {a}" and "a \<in> W" and "W' \<subseteq> W"
  shows "R\<^sup>+ `` (W' \<union> S) \<subseteq> R\<^sup>+ `` W"
proof
  fix y assume "y \<in> R\<^sup>+ `` (W' \<union> S)"
  then obtain x where x: "x \<in> W' \<union> S" and xy: "(x, y) \<in> R\<^sup>+" by blast
  show "y \<in> R\<^sup>+ `` W"
  proof (cases "x \<in> W'")
    case True
    with assms(3) xy show ?thesis by blast
  next
    case False
    with x assms(1) have "(a, x) \<in> R" by blast
    from this xy have "(a, y) \<in> R\<^sup>+" by (rule trancl_into_trancl2)
    with assms(2) show ?thesis by blast
  qed
qed

lemma insertPHI_while_effect:
  "insertPHI_while df mr bbs m s = (m', s') \<Longrightarrow>
     marked m mr \<subseteq> marked m' mr \<and>
     (\<forall>r. r \<noteq> mr \<longrightarrow> marked m' r = marked m r) \<and>
     marked m' mr \<subseteq> marked m mr \<union> (dfRel df)\<^sup>+ `` set bbs \<and>
     dfRel df `` set bbs \<subseteq> marked m' mr \<and>
     dfRel df `` (marked m' mr - marked m mr) \<subseteq> marked m' mr \<and>
     (\<forall>b. phisAt s' b =
        phisAt s b @ (if b \<in> marked m' mr - marked m mr then [newPHI b mr] else []))"
proof (induction df mr bbs m s rule: insertPHI_while.induct)
  case (1 df mr bbs m s)
  show ?case
  proof (cases "bbs = []")
    case True
    with "1.prems" show ?thesis by simp
  next
    case False
    define W' where "W' = set (butlast bbs)"
    define R where "R = dfRel df"
    define M where "M = marked m mr"
    define M' where "M' = marked m' mr"
    have W: "set bbs = insert (last bbs) W'"
      using False by (simp add: W'_def set_butlast_last)
    show ?thesis
    proof (cases "map_of df (last bbs)")
      case None
      let ?sw = "writeWrnMsg ''bb not in the dominance frontier map??'' s"
      from None False "1.prems"
      have "insertPHI_while df mr (butlast bbs) m ?sw = (m', s')"
        by (simp add: insertPHI_while_miss)
      from "1.IH"(1)[OF False refl refl None this]
      have a: "M \<subseteq> M'"
        and b: "\<forall>r. r \<noteq> mr \<longrightarrow> marked m' r = marked m r"
        and c: "M' \<subseteq> M \<union> R\<^sup>+ `` W'"
        and d: "R `` W' \<subseteq> M'"
        and e: "R `` (M' - M) \<subseteq> M'"
        and f: "\<forall>b. phisAt s' b = phisAt s b @ (if b \<in> M' - M then [newPHI b mr] else [])"
        by (simp_all add: M_def M'_def R_def W'_def)
      have n: "R `` {last bbs} = {}"
        using None by (simp add: R_def dfRel_None)
      have "M' \<subseteq> M \<union> R\<^sup>+ `` set bbs"
        using c unfolding W by blast
      moreover have "R `` set bbs \<subseteq> M'"
        using d n unfolding W by auto
      ultimately show ?thesis
        using a b e f by (simp add: M_def M'_def R_def)
    next
      case (Some domSet)
      obtain m1 bbs1 s1 where ds: "insertPHI_domSet mr domSet m (butlast bbs) s = (m1, bbs1, s1)"
        by (cases "insertPHI_domSet mr domSet m (butlast bbs) s") auto
      with Some False "1.prems" have w: "insertPHI_while df mr bbs1 m1 s1 = (m', s')"
        by (simp add: insertPHI_while_hit)
      define M1 where "M1 = marked m1 mr"
      define S where "S = set domSet"
      from insertPHI_domSet_effect[OF ds]
      have p: "M1 = M \<union> S"
        and q: "\<forall>r. r \<noteq> mr \<longrightarrow> marked m1 r = marked m r"
        and t: "set bbs1 = W' \<union> (S - M)"
        and u: "\<forall>b. phisAt s1 b = phisAt s b @ (if b \<in> S - M then [newPHI b mr] else [])"
        by (simp_all add: M_def M1_def S_def W'_def)
      from "1.IH"(2)[OF False refl refl Some ds[symmetric] refl w]
      have a: "M1 \<subseteq> M'"
        and b: "\<forall>r. r \<noteq> mr \<longrightarrow> marked m' r = marked m1 r"
        and c: "M' \<subseteq> M1 \<union> R\<^sup>+ `` set bbs1"
        and d: "R `` set bbs1 \<subseteq> M'"
        and e: "R `` (M' - M1) \<subseteq> M'"
        and f: "\<forall>b. phisAt s' b = phisAt s1 b @ (if b \<in> M' - M1 then [newPHI b mr] else [])"
        by (simp_all add: M1_def M'_def R_def)
      have SR: "R `` {last bbs} = S"
        using Some by (simp add: R_def S_def dfRel_Some)
      have g1: "M \<subseteq> M'" using a p by blast
      have g2: "\<forall>r. r \<noteq> mr \<longrightarrow> marked m' r = marked m r" using b q by simp
      have "R\<^sup>+ `` set bbs1 \<subseteq> R\<^sup>+ `` set bbs"
      proof -
        have "R\<^sup>+ `` (W' \<union> S) \<subseteq> R\<^sup>+ `` set bbs"
          by (rule trancl_image_step[where a="last bbs"]) (auto simp: SR W)
        then show ?thesis using t by blast
      qed
      moreover have "S \<subseteq> R\<^sup>+ `` set bbs"
        using SR unfolding W by auto
      ultimately have g3: "M' \<subseteq> M \<union> R\<^sup>+ `` set bbs"
        using c p by blast
      have "R `` W' \<subseteq> M'"
      proof
        fix y assume "y \<in> R `` W'"
        then obtain x where x: "x \<in> W'" "(x, y) \<in> R" by blast
        show "y \<in> M'"
        proof (cases "x \<in> set bbs1")
          case True with x d show ?thesis by blast
        next
          case False with x t show ?thesis by blast
        qed
      qed
      moreover have "R `` {last bbs} \<subseteq> M'"
        using SR a p by auto
      ultimately have g4: "R `` set bbs \<subseteq> M'"
        unfolding W by auto
      have g5: "R `` (M' - M) \<subseteq> M'"
      proof
        fix y assume "y \<in> R `` (M' - M)"
        then obtain x where x: "x \<in> M'" "x \<notin> M" "(x, y) \<in> R" by blast
        show "y \<in> M'"
        proof (cases "x \<in> M1")
          case True
          with p x have "x \<in> set bbs1" using t by blast
          with x d show ?thesis by blast
        next
          case False
          with x e show ?thesis by blast
        qed
      qed
      have g6: "\<forall>b. phisAt s' b = phisAt s b @ (if b \<in> M' - M then [newPHI b mr] else [])"
      proof
        fix b
        show "phisAt s' b = phisAt s b @ (if b \<in> M' - M then [newPHI b mr] else [])"
          using f[rule_format, of b] u[rule_format, of b] a p by auto
      qed
      from g1 g2 g3 g4 g5 g6 show ?thesis
        by (simp add: M_def M'_def R_def)
    qed
  qed
qed

lemma worklist_closure:
  assumes sub: "M' \<subseteq> M \<union> R\<^sup>+ `` W"
    and mono: "M \<subseteq> M'"
    and first: "R `` W \<subseteq> M'"
    and closed: "R `` (M' - M) \<subseteq> M'"
    and start: "M = {} \<or> M = R\<^sup>+ `` W"
  shows "M' = R\<^sup>+ `` W"
proof (cases "M = {}")
  case True
  have "y \<in> M'" if "(x, y) \<in> R\<^sup>+" and "x \<in> W" for x y
    using that
  proof (induction rule: trancl.induct)
    case (r_into_trancl a b)
    with first show ?case by blast
  next
    case (trancl_into_trancl a b c)
    then have "b \<in> M' - M" using True by simp
    with \<open>(b, c) \<in> R\<close> closed show ?case by blast
  qed
  then have "R\<^sup>+ `` W \<subseteq> M'" by blast
  with sub True show ?thesis by blast
next
  case False
  with start have "M = R\<^sup>+ `` W" by simp
  with sub mono show ?thesis by blast
qed

lemma phiCount_append:
  "phisAt s' b = phisAt s b @ (if c then [newPHI b mr] else []) \<Longrightarrow>
     phiCount s' b r = phiCount s b r + (if r = mr \<and> c then 1 else 0)"
  by (simp add: phiCount_def newPHI_def)

lemma insertPHI_while_closure:
  assumes w: "insertPHI_while df mr bbs m s = (m', s')"
    and start: "marked m mr = {} \<or> marked m mr = iteratedDF df (set bbs)"
  shows "marked m' mr = iteratedDF df (set bbs)"
    and "r \<noteq> mr \<Longrightarrow> marked m' r = marked m r"
    and "phiCount s' b r =
           phiCount s b r + (if r = mr \<and> b \<in> iteratedDF df (set bbs) - marked m mr then 1 else 0)"
proof -
  note e = insertPHI_while_effect[OF w]
  from e start show c: "marked m' mr = iteratedDF df (set bbs)"
    unfolding iteratedDF_def by (intro worklist_closure[where M="marked m mr"]) blast+
  from e show "r \<noteq> mr \<Longrightarrow> marked m' r = marked m r" by blast
  from e have "phisAt s' b =
      phisAt s b @ (if b \<in> marked m' mr - marked m mr then [newPHI b mr] else [])"
    by blast
  from phiCount_append[OF this] c show "phiCount s' b r =
           phiCount s b r + (if r = mr \<and> b \<in> iteratedDF df (set bbs) - marked m mr then 1 else 0)"
    by simp
qed

lemma insertPHI_regions_effect:
  assumes "insertPHI_regions df mrs m s = (m', s')"
    and "\<forall>r. marked m r = {} \<or> marked m r = iteratedDF df (set (reg2BBMap s r))"
  shows "(\<forall>r. marked m' r =
            (if r \<in> set mrs then iteratedDF df (set (reg2BBMap s r)) else marked m r)) \<and>
         (\<forall>b r. phiCount s' b r =
            phiCount s b r +
              (if r \<in> set mrs \<and> b \<in> iteratedDF df (set (reg2BBMap s r)) - marked m r
               then 1 else 0))"
  using assms
proof (induction mrs arbitrary: m s)
  case Nil
  then show ?case by simp
next
  case (Cons mr rest)
  obtain m1 s1 where w: "insertPHI_while df mr (reg2BBMap s mr) m s = (m1, s1)"
    by (cases "insertPHI_while df mr (reg2BBMap s mr) m s") auto
  with Cons.prems(1) have r: "insertPHI_regions df rest m1 s1 = (m', s')" by simp
  from phisOnly_while[OF w phisOnly_refl] have frame: "reg2BBMap s1 = reg2BBMap s"
    by (simp add: phisOnly_def)
  from Cons.prems(2) have st: "marked m mr = {} \<or> marked m mr = iteratedDF df (set (reg2BBMap s mr))"
    by blast
  note c = insertPHI_while_closure[OF w st]
  have inv1: "\<forall>r. marked m1 r = {} \<or> marked m1 r = iteratedDF df (set (reg2BBMap s1 r))"
  proof
    fix r
    show "marked m1 r = {} \<or> marked m1 r = iteratedDF df (set (reg2BBMap s1 r))"
      using c(1) c(2)[of r] Cons.prems(2) frame by (cases "r = mr") auto
  qed
  from Cons.IH[OF r inv1]
  have i1: "\<forall>r. marked m' r =
            (if r \<in> set rest then iteratedDF df (set (reg2BBMap s r)) else marked m1 r)"
    and i2: "\<forall>b r. phiCount s' b r =
            phiCount s1 b r +
              (if r \<in> set rest \<and> b \<in> iteratedDF df (set (reg2BBMap s r)) - marked m1 r
               then 1 else 0)"
    by (simp_all add: frame)
  have "\<forall>r. marked m' r =
            (if r \<in> set (mr # rest) then iteratedDF df (set (reg2BBMap s r)) else marked m r)"
  proof
    fix r
    show "marked m' r =
            (if r \<in> set (mr # rest) then iteratedDF df (set (reg2BBMap s r)) else marked m r)"
      using i1[rule_format, of r] c(1) c(2)[of r] by (cases "r = mr") auto
  qed
  moreover have "\<forall>b r. phiCount s' b r =
            phiCount s b r +
              (if r \<in> set (mr # rest) \<and> b \<in> iteratedDF df (set (reg2BBMap s r)) - marked m r
               then 1 else 0)"
  proof (intro allI)
    fix b r
    show "phiCount s' b r =
            phiCount s b r +
              (if r \<in> set (mr # rest) \<and> b \<in> iteratedDF df (set (reg2BBMap s r)) - marked m r
               then 1 else 0)"
      using i2[rule_format, of b r] c(3)[of b r] c(1) c(2)[of r] by (cases "r = mr") auto
  qed
  ultimately show ?case by blast
qed

lemma insertPHI_effect:
  obtains m' where "insertPHI_regions df (usedRegs s) (\<lambda>_. {}) s = (m', insertPHI df s)"
    and "\<forall>r. marked m' r =
            (if r \<in> set (usedRegs s) then iteratedDF df (set (reg2BBMap s r)) else {})"
    and "\<forall>b r. phiCount (insertPHI df s) b r =
            phiCount s b r +
              (if r \<in> set (usedRegs s) \<and> b \<in> iteratedDF df (set (reg2BBMap s r)) then 1 else 0)"
proof -
  obtain m' s' where r: "insertPHI_regions df (usedRegs s) (\<lambda>_. {}) s = (m', s')"
    by (cases "insertPHI_regions df (usedRegs s) (\<lambda>_. {}) s") auto
  then have s': "s' = insertPHI df s" by (simp add: insertPHI_def)
  have "\<forall>r. marked (\<lambda>_. {}) r = {} \<or> marked (\<lambda>_. {}) r = iteratedDF df (set (reg2BBMap s r))"
    by (simp add: marked_def)
  from insertPHI_regions_effect[OF r this] r s' that show ?thesis
    by (simp add: marked_def)
qed

text \<open>
  The closure is the least set that holds the frontier of the defining blocks and of
  its own blocks.
\<close>

lemma iteratedDF_closed: "dfRel df `` (D \<union> iteratedDF df D) \<subseteq> iteratedDF df D"
  unfolding iteratedDF_def by (auto intro: trancl_into_trancl)

lemma iteratedDF_least:
  assumes "dfRel df `` (D \<union> X) \<subseteq> X"
  shows "iteratedDF df D \<subseteq> X"
proof
  fix y assume "y \<in> iteratedDF df D"
  then obtain x where "x \<in> D" and "(x, y) \<in> (dfRel df)\<^sup>+" by (auto simp: iteratedDF_def)
  from this(2) this(1) show "y \<in> X"
  proof (induction rule: trancl.induct)
    case (r_into_trancl a b)
    with assms show ?case by blast
  next
    case (trancl_into_trancl a b c)
    then have "b \<in> X" by simp
    with \<open>(b, c) \<in> dfRel df\<close> assms show ?case by blast
  qed
qed

text \<open>
  After \<^verbatim>\<open>createMUCHI\<close>, from a state without defining blocks, every region that has a
  defining block is a used region.
\<close>

definition defsAreUsed :: "MemSSA \<Rightarrow> bool" where
  "defsAreUsed s \<longleftrightarrow>
     varKills s \<subseteq> set (usedRegs s) \<and> (\<forall>mr. reg2BBMap s mr \<noteq> [] \<longrightarrow> mr \<in> set (usedRegs s))"

lemma defsAreUsed_upd [simp]:
  "defsAreUsed (s\<lparr>load2MuSetMap := a\<rparr>) = defsAreUsed s"
  "defsAreUsed (s\<lparr>store2ChiSetMap := b\<rparr>) = defsAreUsed s"
  "defsAreUsed (s\<lparr>callsiteToMuSetMap := c\<rparr>) = defsAreUsed s"
  "defsAreUsed (s\<lparr>callsiteToChiSetMap := d\<rparr>) = defsAreUsed s"
  by (simp_all add: defsAreUsed_def)

lemma collectUse_defs: "defsAreUsed s \<Longrightarrow> defsAreUsed (collectUse mr s)"
  by (auto simp: defsAreUsed_def collectUse_def)

lemma collectDef_defs: "defsAreUsed s \<Longrightarrow> defsAreUsed (collectDef bb mr s)"
  by (auto simp: defsAreUsed_def collectDef_def Let_def)

lemma AddLoadMU_defs: "defsAreUsed s \<Longrightarrow> defsAreUsed (AddLoadMU bb load mrs s)"
  unfolding AddLoadMU_def by (rule fold_preserves) (simp_all add: collectUse_defs)

lemma AddStoreCHI_defs: "defsAreUsed s \<Longrightarrow> defsAreUsed (AddStoreCHI bb store mrs s)"
  unfolding AddStoreCHI_def by (rule fold_preserves) (simp_all add: collectDef_defs)

lemma AddCallSiteMU_defs: "defsAreUsed s \<Longrightarrow> defsAreUsed (AddCallSiteMU cs mrs s)"
  unfolding AddCallSiteMU_def by (rule fold_preserves) (simp_all add: collectUse_defs)

lemma AddCallSiteCHI_defs: "defsAreUsed s \<Longrightarrow> defsAreUsed (AddCallSiteCHI bb cs mrs s)"
  unfolding AddCallSiteCHI_def by (rule fold_preserves) (simp_all add: collectDef_defs)

lemma createMUCHI_edge_defs: "defsAreUsed s \<Longrightarrow> defsAreUsed (createMUCHI_edge g bb e s)"
  by (cases e) (simp_all add: createMUCHI_edge_def AddLoadMU_defs AddStoreCHI_defs)

lemma createMUCHI_inst_defs: "defsAreUsed s \<Longrightarrow> defsAreUsed (createMUCHI_inst g bb inst s)"
  unfolding createMUCHI_inst_def Let_def
  by (auto split: option.splits
      intro!: AddCallSiteMU_defs AddCallSiteCHI_defs fold_preserves[where P=defsAreUsed]
        createMUCHI_edge_defs)

lemma createMUCHI_block_defs:
  assumes "\<forall>mr. reg2BBMap s mr \<noteq> [] \<longrightarrow> mr \<in> set (usedRegs s)"
  shows "\<forall>mr. reg2BBMap (createMUCHI_block p g bb s) mr \<noteq> [] \<longrightarrow>
           mr \<in> set (usedRegs (createMUCHI_block p g bb s))"
proof -
  have "defsAreUsed (s\<lparr>varKills := {}\<rparr>)"
    using assms by (simp add: defsAreUsed_def)
  then have "defsAreUsed (createMUCHI_block p g bb s)"
    unfolding createMUCHI_block_def
    by (rule fold_preserves[rotated]) (simp add: createMUCHI_inst_defs)
  then show ?thesis by (simp add: defsAreUsed_def)
qed

lemma createMUCHI_defs:
  assumes "createMUCHI p g f (setCurrentDFDT s0) = Inr s"
  shows "reg2BBMap s mr \<noteq> [] \<Longrightarrow> mr \<in> set (usedRegs s)"
    and "bb2PhiSetMap s = bb2PhiSetMap s0"
proof -
  let ?s1 = "fold (createMUCHI_block p g) (reachableBBs f) (setCurrentDFDT s0)"
  have s: "s = entryState f (usedRegs ?s1) ?s1"
    using assms by (simp add: createMUCHI_eq)
  have "\<forall>mr. reg2BBMap ?s1 mr \<noteq> [] \<longrightarrow> mr \<in> set (usedRegs ?s1)"
    by (rule fold_preserves) (simp_all add: createMUCHI_block_defs setCurrentDFDT_def)
  then show "reg2BBMap s mr \<noteq> [] \<Longrightarrow> mr \<in> set (usedRegs s)"
    by (simp add: s entryState_def)
  from createMUCHI_blocks_nodes[of "setCurrentDFDT s0" p g "reachableBBs f"]
  show "bb2PhiSetMap s = bb2PhiSetMap s0"
    by (simp add: s entryState_def buildsNodesOnly_def setCurrentDFDT_def)
qed

lemma iteratedDF_empty [simp]: "iteratedDF df {} = {}"
  by (simp add: iteratedDF_def)

lemma insertPHI_domSet_pushes:
  "insertPHI_domSet mr domSet m bbs s = (m', bbs', s') \<Longrightarrow>
     \<exists>pushed. bbs' = bbs @ pushed \<and> distinct pushed \<and>
       set pushed = {b \<in> set domSet. mr \<notin> m b} \<and>
       (\<forall>b. m' b = (if b \<in> set pushed then insert mr (m b) else m b))"
proof (induction domSet arbitrary: m bbs s)
  case Nil
  then show ?case by simp
next
  case (Cons pbb rest)
  show ?case
  proof (cases "mr \<in> m pbb")
    case True
    with Cons.prems have "insertPHI_domSet mr rest m bbs s = (m', bbs', s')" by simp
    from Cons.IH[OF this] obtain pushed where
      "bbs' = bbs @ pushed" "distinct pushed" "set pushed = {b \<in> set rest. mr \<notin> m b}"
      "\<forall>b. m' b = (if b \<in> set pushed then insert mr (m b) else m b)"
      by blast
    moreover from this(3) True have "set pushed = {b \<in> set (pbb # rest). mr \<notin> m b}"
      by auto
    ultimately show ?thesis by blast
  next
    case False
    let ?m1 = "m(pbb := insert mr (m pbb))"
    from False Cons.prems
    have "insertPHI_domSet mr rest ?m1 (bbs @ [pbb]) (AddMSSAPHI pbb mr s) = (m', bbs', s')"
      by simp
    from Cons.IH[OF this] obtain pushed where
      1: "bbs' = (bbs @ [pbb]) @ pushed" and 2: "distinct pushed"
      and 3: "set pushed = {b \<in> set rest. mr \<notin> ?m1 b}"
      and 4: "\<forall>b. m' b = (if b \<in> set pushed then insert mr (?m1 b) else ?m1 b)"
      by blast
    from 3 have n: "pbb \<notin> set pushed" by simp
    have "bbs' = bbs @ (pbb # pushed)" using 1 by simp
    moreover have "distinct (pbb # pushed)" using 2 n by simp
    moreover have "set (pbb # pushed) = {b \<in> set (pbb # rest). mr \<notin> m b}"
      using 3 False by auto
    moreover have "\<forall>b. m' b = (if b \<in> set (pbb # pushed) then insert mr (m b) else m b)"
      using 4 n by auto
    ultimately show ?thesis by blast
  qed
qed

lemma insertPHI_while_warnings:
  "insertPHI_while df mr bbs m s = (m', s') \<Longrightarrow> set (warnings s) \<subseteq> set (warnings s')"
proof (induction df mr bbs m s rule: insertPHI_while.induct)
  case (1 df mr bbs m s)
  show ?case
  proof (cases "bbs = []")
    case True
    with "1.prems" show ?thesis by simp
  next
    case False
    show ?thesis
    proof (cases "map_of df (last bbs)")
      case None
      with False "1.prems" have
        "insertPHI_while df mr (butlast bbs) m
           (writeWrnMsg ''bb not in the dominance frontier map??'' s) = (m', s')"
        by (simp add: insertPHI_while_miss)
      from "1.IH"(1)[OF False refl refl None this] show ?thesis
        by (auto simp: writeWrnMsg_def)
    next
      case (Some domSet)
      obtain m1 bbs1 s1 where d: "insertPHI_domSet mr domSet m (butlast bbs) s = (m1, bbs1, s1)"
        by (cases "insertPHI_domSet mr domSet m (butlast bbs) s") auto
      with False Some "1.prems" have w: "insertPHI_while df mr bbs1 m1 s1 = (m', s')"
        by (simp add: insertPHI_while_hit)
      from "1.IH"(2)[OF False refl refl Some d[symmetric] refl w] insertPHI_domSet_effect[OF d]
      show ?thesis by simp
    qed
  qed
qed

subsection \<open>Renaming the phis of a block and of its successors\<close>

text \<open>
  From \<open>s\<close> to \<open>s'\<close> versions were only minted: every counter is as high or higher,
  every stack is extended at its back; no entry is created or lost.
\<close>

definition onlyPushes :: "MemSSA \<Rightarrow> MemSSA \<Rightarrow> bool" where
  "onlyPushes s s' \<longleftrightarrow>
     (\<forall>r. rel_option (\<le>) (mr2CounterMap s r) (mr2CounterMap s' r)) \<and>
     (\<forall>r. rel_option (\<lambda>st st'. \<exists>ext. st' = st @ ext) (mr2VerStackMap s r) (mr2VerStackMap s' r))"

lemma onlyPushes_refl [simp]: "onlyPushes s s"
  by (simp add: onlyPushes_def option.rel_refl)

lemma onlyPushes_trans:
  assumes "onlyPushes s1 s2" and "onlyPushes s2 s3"
  shows "onlyPushes s1 s3"
  unfolding onlyPushes_def
proof (intro conjI allI)
  fix r
  from assms have "rel_option (\<le>) (mr2CounterMap s1 r) (mr2CounterMap s2 r)"
    "rel_option (\<le>) (mr2CounterMap s2 r) (mr2CounterMap s3 r)"
    by (simp_all add: onlyPushes_def)
  then show "rel_option (\<le>) (mr2CounterMap s1 r) (mr2CounterMap s3 r)"
    by (cases "mr2CounterMap s1 r"; cases "mr2CounterMap s2 r"; cases "mr2CounterMap s3 r") auto
  from assms have
    "rel_option (\<lambda>st st'. \<exists>ext. st' = st @ ext) (mr2VerStackMap s1 r) (mr2VerStackMap s2 r)"
    "rel_option (\<lambda>st st'. \<exists>ext. st' = st @ ext) (mr2VerStackMap s2 r) (mr2VerStackMap s3 r)"
    by (simp_all add: onlyPushes_def)
  then show
    "rel_option (\<lambda>st st'. \<exists>ext. st' = st @ ext) (mr2VerStackMap s1 r) (mr2VerStackMap s3 r)"
    by (cases "mr2VerStackMap s1 r"; cases "mr2VerStackMap s2 r"; cases "mr2VerStackMap s3 r") auto
qed

lemma newSSAName_onlyPushes: "newSSAName mr d s = Inr (v, s') \<Longrightarrow> onlyPushes s s'"
  by (auto simp: newSSAName_Inr onlyPushes_def option.rel_refl)

text \<open>
  A phi whose result has been renamed between \<open>s\<close> and \<open>s'\<close>: the node is the old
  node with a result version, and nothing else of it has changed (no operand slot is
  filled); the version is of the phi's region and names the phi as its definition;
  its number is not below the counter of \<open>s\<close> and is below the counter of \<open>s'\<close>; it
  is on the region's stack in \<open>s'\<close>.
\<close>

definition phiResRenamed :: "MemSSA \<Rightarrow> MemSSA \<Rightarrow> PHI \<Rightarrow> PHI \<Rightarrow> bool" where
  "phiResRenamed s s' phi phi' \<longleftrightarrow>
     (\<exists>v c c' st.
        phi' = phi\<lparr>phi_resVer := Some v\<rparr> \<and>
        ver_mr v = phi_mr phi \<and> ver_def v = MSSAPHI (phi_bb phi) (phi_mr phi) \<and>
        mr2CounterMap s (phi_mr phi) = Some c \<and> c \<le> ver_version v \<and>
        mr2CounterMap s' (phi_mr phi) = Some c' \<and> ver_version v < c' \<and>
        mr2VerStackMap s' (phi_mr phi) = Some st \<and> v \<in> set st)"

lemma phiResRenamed_mono:
  assumes "phiResRenamed s1 s' phi phi'" and "onlyPushes s s1"
  shows "phiResRenamed s s' phi phi'"
proof -
  from assms(1) obtain v c c' st where
    a: "phi' = phi\<lparr>phi_resVer := Some v\<rparr>" "ver_mr v = phi_mr phi"
      "ver_def v = MSSAPHI (phi_bb phi) (phi_mr phi)"
      "mr2CounterMap s1 (phi_mr phi) = Some c" "c \<le> ver_version v"
      "mr2CounterMap s' (phi_mr phi) = Some c'" "ver_version v < c'"
      "mr2VerStackMap s' (phi_mr phi) = Some st" "v \<in> set st"
    unfolding phiResRenamed_def by blast
  from assms(2) have "rel_option (\<le>) (mr2CounterMap s (phi_mr phi)) (mr2CounterMap s1 (phi_mr phi))"
    by (simp add: onlyPushes_def)
  with a(4) obtain c0 where "mr2CounterMap s (phi_mr phi) = Some c0" "c0 \<le> c"
    by (cases "mr2CounterMap s (phi_mr phi)") auto
  with a show ?thesis
    unfolding phiResRenamed_def by (intro exI[of _ v] exI[of _ c0] exI[of _ c'] exI[of _ st]) simp
qed

lemma RenamePhiRes_effect:
  "RenamePhiRes phis ms s = Inr (phis', ms', s') \<Longrightarrow>
     list_all2 (phiResRenamed s s') phis phis' \<and> onlyPushes s s'"
proof (induction phis arbitrary: ms s phis' ms' s')
  case Nil
  then show ?case by simp
next
  case (Cons phi rest)
  from Cons.prems obtain v s1 rest' where
    n: "newSSAName (phi_mr phi) (MSSAPHI (phi_bb phi) (phi_mr phi)) s = Inr (v, s1)"
    and r: "RenamePhiRes rest (ms @ [phi_mr phi]) s1 = Inr (rest', ms', s')"
    and p: "phis' = phi\<lparr>phi_resVer := Some v\<rparr> # rest'"
    by (auto elim!: bindE_InrE)
  from Cons.IH[OF r] have ih: "list_all2 (phiResRenamed s1 s') rest rest'" and op: "onlyPushes s1 s'"
    by simp_all
  note o1 = newSSAName_onlyPushes[OF n]
  from n obtain c st where c: "mr2CounterMap s (phi_mr phi) = Some c"
    and v: "v = \<lparr>ver_mr = phi_mr phi, ver_version = c, ver_def = MSSAPHI (phi_bb phi) (phi_mr phi)\<rparr>"
    and c1: "mr2CounterMap s1 (phi_mr phi) = Some (c + 1)"
    and st1: "mr2VerStackMap s1 (phi_mr phi) = Some (st @ [v])"
    by (auto simp: newSSAName_Inr)
  from op c1 obtain c' where c': "mr2CounterMap s' (phi_mr phi) = Some c'" "c + 1 \<le> c'"
    by (cases "mr2CounterMap s' (phi_mr phi)") (auto simp: onlyPushes_def dest!: spec[of _ "phi_mr phi"])
  from op st1 obtain ext where st': "mr2VerStackMap s' (phi_mr phi) = Some ((st @ [v]) @ ext)"
    by (cases "mr2VerStackMap s' (phi_mr phi)") (auto simp: onlyPushes_def dest!: spec[of _ "phi_mr phi"])
  have "phiResRenamed s s' phi (phi\<lparr>phi_resVer := Some v\<rparr>)"
    unfolding phiResRenamed_def
    using c c' st' v
    by (intro exI[of _ v] exI[of _ c] exI[of _ c'] exI[of _ "(st @ [v]) @ ext"]) simp
  moreover have "list_all2 (phiResRenamed s s') rest rest'"
    using ih by (rule list_all2_mono) (rule phiResRenamed_mono[OF _ o1])
  ultimately show ?case
    using p onlyPushes_trans[OF o1 op] by simp
qed

lemma phiResRenamed_upd [simp]:
  "phiResRenamed s (s'\<lparr>bb2PhiSetMap := x\<rparr>) = phiResRenamed s s'"
  by (simp add: phiResRenamed_def fun_eq_iff)

lemma renamePhiResults_effect:
  assumes "renamePhiResults bb ms s = Inr (ms1, s1)"
  shows "(\<forall>b. b \<noteq> bb \<longrightarrow> bb2PhiSetMap s1 b = bb2PhiSetMap s b) \<and>
         (\<forall>phis. bb2PhiSetMap s bb = Some phis \<longrightarrow>
            (\<exists>phis1. bb2PhiSetMap s1 bb = Some phis1 \<and> list_all2 (phiResRenamed s s1) phis phis1))"
proof (cases "bb2PhiSetMap s bb")
  case None
  with assms show ?thesis by (simp add: renamePhiResults_def)
next
  case (Some phis)
  with assms obtain phis1 s' where
    r: "RenamePhiRes phis ms s = Inr (phis1, ms1, s')"
    and s1: "s1 = s'\<lparr>bb2PhiSetMap := (bb2PhiSetMap s')(bb \<mapsto> phis1)\<rparr>"
    by (auto simp: renamePhiResults_def elim!: bindE_InrE)
  have fr: "bb2PhiSetMap s' = bb2PhiSetMap s"
    using r
  proof (induction phis arbitrary: ms s phis1)
    case Nil
    then show ?case by simp
  next
    case (Cons phi rest)
    then show ?case
      by (auto elim!: bindE_InrE simp: newSSAName_Inr)
  qed
  from RenamePhiRes_effect[OF r] have "list_all2 (phiResRenamed s s1) phis phis1"
    by (simp add: s1)
  with Some fr show ?thesis by (simp add: s1)
qed

text \<open>The instructions of a block leave the phi sets alone.\<close>

lemma RenameChiSet_phis:
  "RenameChiSet chis ms s = Inr (chis', ms', s') \<Longrightarrow> bb2PhiSetMap s' = bb2PhiSetMap s"
proof (induction chis arbitrary: ms s chis')
  case Nil
  then show ?case by simp
next
  case (Cons chi rest)
  then show ?case by (auto elim!: bindE_InrE simp: newSSAName_Inr)
qed

lemma renameEdges_phis:
  "renameEdges es ms s = Inr (ms', s') \<Longrightarrow> bb2PhiSetMap s' = bb2PhiSetMap s"
proof (induction es ms s rule: renameEdges.induct)
  case (1 memRegs s)
  then show ?case by simp
next
  case (2 load rest memRegs s)
  then show ?case by (auto elim!: bindE_InrE)
next
  case (3 store rest memRegs s)
  from "3.prems" obtain chis ms1 s1 where
    c: "RenameChiSet (store2ChiSetMap s store) memRegs s = Inr (chis, ms1, s1)"
    and r: "renameEdges rest ms1 (s1\<lparr>store2ChiSetMap := (store2ChiSetMap s1)(store := chis)\<rparr>) = Inr (ms', s')"
    by (auto elim!: bindE_InrE)
  from "3.IH"[OF c refl refl r] RenameChiSet_phis[OF c] show ?case by simp
next
  case (4 rest memRegs s)
  then show ?case by simp
qed

lemma renameInst_phis:
  "renameInst g p bb inst ms s = Inr (ms', s') \<Longrightarrow> bb2PhiSetMap s' = bb2PhiSetMap s"
  unfolding renameInst_def
  by (fastforce elim!: bindE_InrE split: option.splits if_splits
      dest: renameEdges_phis RenameChiSet_phis)

lemma renameInsts_phis:
  "renameInsts g p bb insts ms s = Inr (ms', s') \<Longrightarrow> bb2PhiSetMap s' = bb2PhiSetMap s"
proof (induction insts arbitrary: ms s)
  case Nil
  then show ?case by simp
next
  case (Cons inst rest)
  from Cons.prems obtain ms1 s1 where
    a: "renameInst g p bb inst ms s = Inr (ms1, s1)"
    and b: "renameInsts g p bb rest ms1 s1 = Inr (ms', s')"
    by (auto elim!: bindE_InrE)
  from Cons.IH[OF b] renameInst_phis[OF a] show ?case by simp
qed

text \<open>Filling one operand slot in the phis of a set, and in the phis of the successors.\<close>

lemma topStackVer_stacks:
  "mr2VerStackMap s' = mr2VerStackMap s \<Longrightarrow> topStackVer mr s' = topStackVer mr s"
  by (simp add: topStackVer_def)

lemma RenamePhiOps_effect:
  "RenamePhiOps phis pos s = Inr phis' \<Longrightarrow>
     \<forall>phi \<in> set phis'. \<exists>v. topStackVer (phi_mr phi) s = Inr v \<and> phi_opVers phi pos = Some v"
proof (induction phis arbitrary: phis')
  case Nil
  then show ?case by simp
next
  case (Cons phi rest)
  from Cons.prems obtain v rest' where
    "topStackVer (phi_mr phi) s = Inr v" "RenamePhiOps rest pos s = Inr rest'"
    "phis' = phi\<lparr>phi_opVers := (phi_opVers phi)(pos \<mapsto> v)\<rparr> # rest'"
    by (auto elim!: bindE_InrE)
  with Cons.IH[of rest'] show ?case by simp
qed

lemma fillSuccPhiOps_effect:
  "fillSuccPhiOps p bb succs s = Inr s' \<Longrightarrow>
     mr2VerStackMap s' = mr2VerStackMap s \<and>
     (\<forall>b. b \<notin> set succs \<longrightarrow> bb2PhiSetMap s' b = bb2PhiSetMap s b) \<and>
     (\<forall>succ \<in> set succs. \<forall>phis. bb2PhiSetMap s' succ = Some phis \<longrightarrow>
        (\<forall>phi \<in> set phis. \<exists>v. topStackVer (phi_mr phi) s = Inr v \<and>
            phi_opVers phi (getBBPredecessorPos p bb succ) = Some v))"
proof (induction succs arbitrary: s)
  case Nil
  then show ?case by simp
next
  case (Cons succ rest)
  let ?pos = "getBBPredecessorPos p bb succ"
  define filled where "filled = (\<lambda>(s0 :: MemSSA) (s1 :: MemSSA) b.
       \<forall>phis. bb2PhiSetMap s1 b = Some phis \<longrightarrow>
        (\<forall>phi \<in> set phis. \<exists>v. topStackVer (phi_mr phi) s0 = Inr v \<and>
            phi_opVers phi (getBBPredecessorPos p bb b) = Some v))"
  obtain s1 where
    r: "fillSuccPhiOps p bb rest s1 = Inr s'"
    and st: "mr2VerStackMap s1 = mr2VerStackMap s"
    and oth: "\<forall>b. b \<noteq> succ \<longrightarrow> bb2PhiSetMap s1 b = bb2PhiSetMap s b"
    and f1: "filled s s1 succ"
  proof (cases "bb2PhiSetMap s succ")
    case None
    with Cons.prems have "fillSuccPhiOps p bb rest s = Inr s'" by (simp add: Let_def)
    with None that[of s] show ?thesis by (simp add: filled_def)
  next
    case (Some phis)
    with Cons.prems obtain phis' where
      o: "RenamePhiOps phis ?pos s = Inr phis'"
      and r: "fillSuccPhiOps p bb rest (s\<lparr>bb2PhiSetMap := (bb2PhiSetMap s)(succ \<mapsto> phis')\<rparr>) = Inr s'"
      by (auto simp: Let_def elim!: bindE_InrE)
    from RenamePhiOps_effect[OF o]
    have "filled s (s\<lparr>bb2PhiSetMap := (bb2PhiSetMap s)(succ \<mapsto> phis')\<rparr>) succ"
      by (simp add: filled_def)
    with r that[of "s\<lparr>bb2PhiSetMap := (bb2PhiSetMap s)(succ \<mapsto> phis')\<rparr>"] show ?thesis
      by simp
  qed
  from Cons.IH[OF r]
  have a: "mr2VerStackMap s' = mr2VerStackMap s1"
    and b: "\<forall>b. b \<notin> set rest \<longrightarrow> bb2PhiSetMap s' b = bb2PhiSetMap s1 b"
    and c: "\<forall>x \<in> set rest. filled s1 s' x"
    by (simp_all add: filled_def)
  have t: "topStackVer mr s1 = topStackVer mr s" for mr
    using st by (rule topStackVer_stacks)
  have "mr2VerStackMap s' = mr2VerStackMap s" using a st by simp
  moreover have "\<forall>b. b \<notin> set (succ # rest) \<longrightarrow> bb2PhiSetMap s' b = bb2PhiSetMap s b"
    using b oth by simp
  moreover have "\<forall>x \<in> set (succ # rest). filled s s' x"
  proof
    fix x assume x: "x \<in> set (succ # rest)"
    show "filled s s' x"
    proof (cases "x \<in> set rest")
      case True
      with c have "filled s1 s' x" by blast
      then show ?thesis by (simp add: filled_def t)
    next
      case False
      with x have xs: "x = succ" by simp
      with False b have "bb2PhiSetMap s' succ = bb2PhiSetMap s1 succ" by blast
      with f1 xs show ?thesis by (simp add: filled_def)
    qed
  qed
  ultimately show ?case by (simp add: filled_def)
qed

subsection \<open>The recursion of SSARenameBB\<close>

text \<open>
  The recursion of the source. \<^verbatim>\<open>SSARenameBB\<close> calls itself on the block of every child
  of the block's node, and the call looks the node of that block up again. In a
  dominator tree no block has two nodes, so the lookup gives the child; then the
  model, which recurses on the child node, satisfies the equation that the source
  text states.
\<close>

fun nodesOf :: "DomTreeNode \<Rightarrow> DomTreeNode list" where
  "nodesOf (DomTreeNode b cs) = DomTreeNode b cs # concat (map nodesOf cs)"

fun SSARenameBlocks ::
  "MRGenerator \<Rightarrow> Program \<Rightarrow> DominatorTree \<Rightarrow> DomTreeNode list \<Rightarrow> MemSSA \<Rightarrow> error + MemSSA" where
  "SSARenameBlocks g p dt [] s = Inr s"
| "SSARenameBlocks g p dt (c # cs) s =
    bindE (SSARenameBB g p dt (getBlock c) s) (\<lambda>s1. SSARenameBlocks g p dt cs s1)"

lemma find_app:
  "find P (xs @ ys) = (case find P xs of Some x \<Rightarrow> Some x | None \<Rightarrow> find P ys)"
  by (induction xs) simp_all

lemma getNode_find:
  shows "getNode n bb = find (\<lambda>m. getBlock m = bb) (nodesOf n)"
    and "getNodeIn cs bb = find (\<lambda>m. getBlock m = bb) (concat (map nodesOf cs))"
proof (induction n bb and cs bb rule: getNode_getNodeIn.induct)
  case (1 b cs bb)
  then show ?case by simp
next
  case (2 bb)
  then show ?case by simp
next
  case (3 c cs bb)
  then show ?case by (simp add: find_app split: option.splits)
qed

lemma find_distinct_map:
  "distinct (map f xs) \<Longrightarrow> x \<in> set xs \<Longrightarrow> find (\<lambda>y. f y = f x) xs = Some x"
  by (induction xs) (auto simp: image_iff)

lemma nodesOf_self: "n \<in> set (nodesOf n)"
  by (cases n) simp

lemma nodesOf_children:
  "n \<in> set (nodesOf dt) \<Longrightarrow> c \<in> set (children n) \<Longrightarrow> c \<in> set (nodesOf dt)"
proof (induction dt arbitrary: n)
  case (DomTreeNode b cs)
  show ?case
  proof (cases "n = DomTreeNode b cs")
    case True
    with DomTreeNode.prems(2) have "c \<in> set cs" by simp
    then show ?thesis using nodesOf_self[of c] by auto
  next
    case False
    with DomTreeNode.prems(1) obtain d where "d \<in> set cs" "n \<in> set (nodesOf d)" by auto
    with DomTreeNode.IH[OF this DomTreeNode.prems(2)] show ?thesis by auto
  qed
qed

lemma getNode_member: "getNode dt bb = Some n \<Longrightarrow> n \<in> set (nodesOf dt) \<and> getBlock n = bb"
  by (auto simp: getNode_find(1) find_Some_iff)

lemma getNode_of_node:
  assumes "distinct (map getBlock (nodesOf dt))" and "n \<in> set (nodesOf dt)"
  shows "getNode dt (getBlock n) = Some n"
  using find_distinct_map[OF assms] by (simp add: getNode_find(1))

lemma SSARenameChildren_blocks:
  assumes "distinct (map getBlock (nodesOf dt))"
  shows "\<forall>c \<in> set cs. c \<in> set (nodesOf dt) \<Longrightarrow>
           SSARenameChildren g p cs s = SSARenameBlocks g p dt cs s"
proof (induction cs arbitrary: s)
  case Nil
  show ?case by simp
next
  case (Cons c cs)
  then have "getNode dt (getBlock c) = Some c"
    using getNode_of_node[OF assms] by simp
  then have "SSARenameBB g p dt (getBlock c) s = SSARenameNode g p c s"
    by (simp add: SSARenameBB_def)
  with Cons show ?case
    by (auto intro!: bindE_cong)
qed

lemma SSARenameBB_recursion:
  assumes "distinct (map getBlock (nodesOf dt))"
  shows "SSARenameBB g p dt bb s =
    bindE (renameBlock g p bb s) (\<lambda>(memRegs, s1).
    bindE (case getNode dt bb of
             None \<Rightarrow> Inr s1
           | Some dtNode \<Rightarrow> SSARenameBlocks g p dt (children dtNode) s1) (\<lambda>s2.
    popVerStacks memRegs s2))"
proof (cases "getNode dt bb")
  case None
  then show ?thesis by (simp add: SSARenameBB_def)
next
  case (Some n)
  obtain b cs where n: "n = DomTreeNode b cs" by (cases n)
  from getNode_member[OF Some] n have m: "n \<in> set (nodesOf dt)" and b: "b = bb" by auto
  have "\<forall>c \<in> set cs. c \<in> set (nodesOf dt)"
    using nodesOf_children[OF m] n by simp
  from SSARenameChildren_blocks[OF assms this]
  have "SSARenameChildren g p cs = SSARenameBlocks g p dt cs" by (simp add: fun_eq_iff)
  with Some n b show ?thesis by (simp add: SSARenameBB_def)
qed

subsection \<open>Running the construction on the diamond\<close>

lemma diamond_loop1_usedRegs:
  "usedRegs (fold (createMUCHI_block diamondProg diamondGen) (reachableBBs diamondFun)
      (setCurrentDFDT emptyMemSSA)) = [0]"
  by (simp add: diamondFun_def diamondProg_def diamondGen_def createMUCHI_block_def
      createMUCHI_inst_def createMUCHI_edge_def AddLoadMU_def AddStoreCHI_def collectUse_def
      collectDef_def setCurrentDFDT_def emptyMemSSA_def Let_def)

lemma diamond_createMUCHI:
  "\<exists>s'. createMUCHI diamondProg diamondGen diamondFun (setCurrentDFDT emptyMemSSA) = Inr s' \<and>
     usedRegs s' = [0] \<and> funToEntryChiSetMap s' 0 = [entryChiOf diamondFun 0]"
  by (simp add: createMUCHI_eq diamond_loop1_usedRegs)
    (simp add: diamondFun_def diamondProg_def diamondGen_def createMUCHI_block_def
      createMUCHI_inst_def createMUCHI_edge_def AddLoadMU_def AddStoreCHI_def collectUse_def
      collectDef_def setCurrentDFDT_def emptyMemSSA_def Let_def entryState_def)

text \<open>The definitions to unfold when a pass is run on a given function.\<close>

lemmas build_defs =
  buildMemSSA_def createMUCHI_def createMUCHI_block_def createMUCHI_inst_def createMUCHI_edge_def
  AddLoadMU_def AddStoreCHI_def AddCallSiteMU_def AddCallSiteCHI_def collectUse_def collectDef_def
  setCurrentDFDT_def emptyMemSSA_def Let_def newMU_def newCHI_def newSSAName_def
  insertPHI_def insertPHI_while.simps AddMSSAPHI_def newPHI_def writeWrnMsg_def
  SSARename_def SSARenameBB_def renameBlock_def renamePhiResults_def renameInst_def topStackVer_def
  popVerStacks_snoc[of "[]", simplified]

lemmas diamond_defs =
  diamondFun_def diamondProg_def diamondGen_def diamondDF_def diamondDT_def


lemma diamond_then_leaf:
  "bindE (buildMemSSA diamondGen diamondProg diamondFun diamondDF diamondDT emptyMemSSA) (\<lambda>s1.
   bindE (buildMemSSA diamondGen diamondProg leafFun [(20, [])] (DomTreeNode 20 []) s1) (\<lambda>s2.
   bindE (newSSAName 0 (ENTRYCHI 2 0) s2) (\<lambda>(v, s3).
   Inr (usedRegs s1, usedRegs s2, ver_version v)))) = Inr ([0], [], 4)"
  by (simp add: build_defs diamond_defs leafFun_def)

lemma diamond_build_stack:
  "bindE (buildMemSSA diamondGen diamondProg diamondFun diamondDF diamondDT emptyMemSSA) (\<lambda>s'.
     Inr (usedRegs s', map_option (map ver_version) (mr2VerStackMap s' 0))) = Inr ([0], Some [0, 1])"
  by (simp add: build_defs diamond_defs)

lemma diamond_build_staleDT:
  "bindE (buildMemSSA diamondGen diamondProg diamondFun diamondDF staleDT emptyMemSSA) (\<lambda>s'.
     Inr (usedRegs s')) = Inr [0]"
  by (simp add: build_defs diamond_defs staleDT_def)

lemma diamond_phis:
  "bindE (createMUCHI diamondProg diamondGen diamondFun (setCurrentDFDT emptyMemSSA)) (\<lambda>s.
     Inr (phiCount (insertPHI diamondDF s) 3 0, phiCount (insertPHI diamondDF s) 1 0)) = Inr (1, 0)"
  by (simp add: build_defs diamond_defs phiCount_def phisAt_def)

text \<open>The diamond built twice, the second time from the state the first build left.\<close>

lemma diamond_second_build:
  "bindE (buildMemSSA diamondGen diamondProg diamondFun diamondDF diamondDT emptyMemSSA) (\<lambda>s1.
   bindE (createMUCHI diamondProg diamondGen diamondFun (setCurrentDFDT s1)) (\<lambda>s2.
   bindE (buildMemSSA diamondGen diamondProg diamondFun diamondDF diamondDT s1) (\<lambda>s3.
     Inr (phiCount s1 3 0, reg2BBMap s2 0, phiCount (insertPHI diamondDF s2) 3 0,
          phiCount s3 3 0)))) =
   Inr (1, [1], 2, 2)"
  by (simp add: build_defs diamond_defs phiCount_def phisAt_def
      popVerStacks_snoc[of "[a]" for a, simplified])

lemma diamond_renameBlock:
  "bindE (createMUCHI diamondProg diamondGen diamondFun (setCurrentDFDT emptyMemSSA)) (\<lambda>s0.
   bindE (renameBlock diamondGen diamondProg 2 (insertPHI diamondDF s0)) (\<lambda>(ms2, s2).
   bindE (renameBlock diamondGen diamondProg 3 (insertPHI diamondDF s0)) (\<lambda>(ms3, s3).
   Inr (map_option (map (\<lambda>phi. map_option ver_version (phi_opVers phi 1))) (bb2PhiSetMap s2 3),
        map_option (map (\<lambda>phi. (map_option ver_version (phi_resVer phi), phi_opVers phi 0, phi_opVers phi 1)))
          (bb2PhiSetMap s3 3),
        map_option (map phi_mr) (bb2PhiSetMap (insertPHI diamondDF s0) 3), ms3)))) =
   Inr (Some [Some 1], Some [(Some 2, None, None)], Some [0], [0])"
  by (simp add: build_defs diamond_defs)

section \<open>Properties\<close>

subsection \<open>The version stacks after renaming\<close>

text \<open>
  C1, as amended. The pushes and the pops of renaming balance. For a block: the
  stack of a region has grown, when the dominator-tree children are visited, by as
  many versions as \<open>memRegs\<close> holds entries for the region, which is the number of
  pops the last loop makes on that stack; and that loop undoes exactly what the
  block pushed. For the function: when \<^verbatim>\<open>SSARename\<close> returns, the version stack of
  every region is what it was when \<^verbatim>\<open>SSARename\<close> began. The stacks are not empty
  then: after \<^verbatim>\<open>buildMemSSA\<close> the stack of every used region holds the two versions,
  0 and 1, that \<^verbatim>\<open>createMUCHI\<close> pushed for the region's entry chi.
\<close>

theorem SSARename_stack_balance:
  "(renameBlock g p bb s = Inr (ms, s1) \<longrightarrow>
      popVerStacks ms s1 = Inr (s1\<lparr>mr2VerStackMap := mr2VerStackMap s\<rparr>) \<and>
      (\<forall>r st1. mr2VerStackMap s1 r = Some st1 \<longrightarrow>
         (\<exists>st. mr2VerStackMap s r = Some st \<and> length st1 = length st + count_list ms r))) \<and>
   (SSARename g p dt f s = Inr s' \<longrightarrow> mr2VerStackMap s' = mr2VerStackMap s) \<and>
   (buildMemSSA g p f df dt s0 = Inr s'' \<longrightarrow>
      (\<forall>mr \<in> set (usedRegs s'').
         mr2VerStackMap s'' mr =
           Some [\<lparr>ver_mr = mr, ver_version = 0, ver_def = ENTRYCHI (funId f) mr\<rparr>,
                 \<lparr>ver_mr = mr, ver_version = 1, ver_def = ENTRYCHI (funId f) mr\<rparr>]))"
proof (intro conjI impI)
  assume "renameBlock g p bb s = Inr (ms, s1)"
  then have r: "renaming s ms s1" by (rule renameBlock_renaming)
  from popVerStacks_renaming[OF r refl]
  show "popVerStacks ms s1 = Inr (s1\<lparr>mr2VerStackMap := mr2VerStackMap s\<rparr>)" .
  from renaming_count[OF r]
  show "\<forall>r st1. mr2VerStackMap s1 r = Some st1 \<longrightarrow>
         (\<exists>st. mr2VerStackMap s r = Some st \<and> length st1 = length st + count_list ms r)"
    by blast
next
  assume "SSARename g p dt f s = Inr s'"
  then show "mr2VerStackMap s' = mr2VerStackMap s"
    using SSARenameBB_balanced by (auto simp: SSARename_def renaming_def)
next
  assume b: "buildMemSSA g p f df dt s0 = Inr s''"
  let ?s1 = "fold (createMUCHI_block p g) (reachableBBs f) (setCurrentDFDT s0)"
  let ?s2 = "entryState f (usedRegs ?s1) ?s1"
  from b have r: "SSARenameBB g p dt (getEntryBlock f) (insertPHI df ?s2) = Inr s''"
    by (simp add: buildMemSSA_def createMUCHI_eq SSARename_def split: if_splits)
  from SSARenameBB_balanced[OF r] phisOnly_insertPHI[of ?s2 df]
  have "mr2VerStackMap s'' = mr2VerStackMap ?s2" and "usedRegs s'' = usedRegs ?s1"
    by (simp_all add: renaming_def phisOnly_def)
  then show "\<forall>mr \<in> set (usedRegs s'').
         mr2VerStackMap s'' mr =
           Some [\<lparr>ver_mr = mr, ver_version = 0, ver_def = ENTRYCHI (funId f) mr\<rparr>,
                 \<lparr>ver_mr = mr, ver_version = 1, ver_def = ENTRYCHI (funId f) mr\<rparr>]"
    by (simp add: entryState_def entryVer_def)
qed

theorem SSARename_stack_balance_witness:
  "\<exists>s''. buildMemSSA diamondGen diamondProg diamondFun diamondDF diamondDT emptyMemSSA = Inr s'' \<and>
     usedRegs s'' = [0] \<and>
     mr2VerStackMap s'' 0 =
       Some [\<lparr>ver_mr = 0, ver_version = 0, ver_def = ENTRYCHI 0 0\<rparr>,
             \<lparr>ver_mr = 0, ver_version = 1, ver_def = ENTRYCHI 0 0\<rparr>] \<and>
     (\<exists>s1. createMUCHI diamondProg diamondGen diamondFun (setCurrentDFDT emptyMemSSA) = Inr s1 \<and>
        SSARename diamondGen diamondProg diamondDT diamondFun (insertPHI diamondDF s1) = Inr s'' \<and>
        mr2VerStackMap s'' = mr2VerStackMap (insertPHI diamondDF s1) \<and>
        (\<exists>ms s2. renameBlock diamondGen diamondProg 0 (insertPHI diamondDF s1) = Inr (ms, s2) \<and>
           popVerStacks ms s2 =
             Inr (s2\<lparr>mr2VerStackMap := mr2VerStackMap (insertPHI diamondDF s1)\<rparr>)))"
proof -
  from diamond_build_stack obtain s'' where
    b: "buildMemSSA diamondGen diamondProg diamondFun diamondDF diamondDT emptyMemSSA = Inr s''"
    and u: "usedRegs s'' = [0]"
    by (auto elim!: bindE_InrE)
  from b obtain s1 where
    c: "createMUCHI diamondProg diamondGen diamondFun (setCurrentDFDT emptyMemSSA) = Inr s1"
    and r: "SSARename diamondGen diamondProg diamondDT diamondFun (insertPHI diamondDF s1) = Inr s''"
    by (auto simp: buildMemSSA_def diamondFun_def elim!: bindE_InrE)
  from r obtain ms s2 where
    k: "renameBlock diamondGen diamondProg 0 (insertPHI diamondDF s1) = Inr (ms, s2)"
    by (auto simp: SSARename_def SSARenameBB_def diamondFun_def diamondDT_def elim!: bindE_InrE)
  note T = SSARename_stack_balance
    [of diamondGen diamondProg 0 "insertPHI diamondDF s1" ms s2 diamondDT diamondFun s''
      diamondDF emptyMemSSA s'']
  from T[THEN conjunct1, THEN mp, OF k, THEN conjunct1] have h1: "popVerStacks ms s2 =
      Inr (s2\<lparr>mr2VerStackMap := mr2VerStackMap (insertPHI diamondDF s1)\<rparr>)" .
  from T[THEN conjunct2, THEN conjunct1, THEN mp, OF r]
  have h2: "mr2VerStackMap s'' = mr2VerStackMap (insertPHI diamondDF s1)" .
  from T[THEN conjunct2, THEN conjunct2, THEN mp, OF b] u have h3: "mr2VerStackMap s'' 0 =
       Some [\<lparr>ver_mr = 0, ver_version = 0, ver_def = ENTRYCHI 0 0\<rparr>,
             \<lparr>ver_mr = 0, ver_version = 1, ver_def = ENTRYCHI 0 0\<rparr>]"
    by (simp add: diamondFun_def)
  from b u h3 c r h2 k h1 show ?thesis by blast
qed

text \<open>
  C1 as stated fails: after \<^verbatim>\<open>buildMemSSA\<close> on the diamond, the stack of the used
  region 0 holds two versions.
\<close>

theorem SSARename_stack_not_empty_counterexample:
  "\<exists>s'. buildMemSSA diamondGen diamondProg diamondFun diamondDF diamondDT emptyMemSSA = Inr s' \<and>
     0 \<in> set (usedRegs s') \<and> map_option length (mr2VerStackMap s' 0) = Some 2"
proof -
  from diamond_build_stack obtain s' where
    "buildMemSSA diamondGen diamondProg diamondFun diamondDF diamondDT emptyMemSSA = Inr s'"
    and "usedRegs s' = [0]"
    and "map_option (map ver_version) (mr2VerStackMap s' 0) = Some [0, 1]"
    by (auto elim!: bindE_InrE)
  then show ?thesis by (cases "mr2VerStackMap s' 0") auto
qed

subsection \<open>A block without a node in the dominator tree\<close>

text \<open>
  C2, as amended. A block that has no node in the dominator tree is not a failure of
  renaming: \<^verbatim>\<open>SSARenameBB\<close> renames the block as it renames a leaf of the tree, visits
  no child, pops what the block pushed and returns. It fails only where the
  renaming of the block itself fails.
\<close>

theorem SSARenameBB_without_node:
  assumes "getNode dt bb = None"
  shows "SSARenameBB g p dt bb s = SSARenameBB g p (DomTreeNode bb []) bb s \<and>
    (\<forall>ms s1. renameBlock g p bb s = Inr (ms, s1) \<longrightarrow>
       SSARenameBB g p dt bb s = Inr (s1\<lparr>mr2VerStackMap := mr2VerStackMap s\<rparr>)) \<and>
    (\<forall>e. SSARenameBB g p dt bb s = Inl e \<longleftrightarrow> renameBlock g p bb s = Inl e)"
proof (intro conjI allI impI)
  show "SSARenameBB g p dt bb s = SSARenameBB g p (DomTreeNode bb []) bb s"
    using assms by (simp add: SSARenameBB_def)
next
  fix ms s1
  assume b: "renameBlock g p bb s = Inr (ms, s1)"
  from popVerStacks_renaming[OF renameBlock_renaming[OF b] refl] b assms
  show "SSARenameBB g p dt bb s = Inr (s1\<lparr>mr2VerStackMap := mr2VerStackMap s\<rparr>)"
    by (simp add: SSARenameBB_def)
next
  fix e
  show "SSARenameBB g p dt bb s = Inl e \<longleftrightarrow> renameBlock g p bb s = Inl e"
  proof (cases "renameBlock g p bb s")
    case (Inl e')
    with assms show ?thesis by (simp add: SSARenameBB_def)
  next
    case (Inr r)
    obtain ms s1 where r: "r = (ms, s1)" by (cases r)
    from popVerStacks_renaming[OF renameBlock_renaming[OF Inr[unfolded r]] refl] Inr r assms
    show ?thesis by (simp add: SSARenameBB_def)
  qed
qed

theorem SSARenameBB_without_node_witness:
  "getNode staleDT 0 = None \<and>
   SSARenameBB diamondGen diamondProg staleDT 0 emptyMemSSA =
     SSARenameBB diamondGen diamondProg (DomTreeNode 0 []) 0 emptyMemSSA \<and>
   renameBlock diamondGen diamondProg 0 emptyMemSSA = Inr ([], emptyMemSSA) \<and>
   SSARenameBB diamondGen diamondProg staleDT 0 emptyMemSSA = Inr emptyMemSSA"
proof -
  have n: "getNode staleDT 0 = None"
    by (simp add: staleDT_def)
  have b: "renameBlock diamondGen diamondProg 0 emptyMemSSA = Inr ([], emptyMemSSA)"
    by (simp add: build_defs diamond_defs)
  from SSARenameBB_without_node[OF n, of diamondGen diamondProg emptyMemSSA] b
  have A: "SSARenameBB diamondGen diamondProg staleDT 0 emptyMemSSA =
      SSARenameBB diamondGen diamondProg (DomTreeNode 0 []) 0 emptyMemSSA"
    and B: "SSARenameBB diamondGen diamondProg staleDT 0 emptyMemSSA =
      Inr (emptyMemSSA\<lparr>mr2VerStackMap := mr2VerStackMap emptyMemSSA\<rparr>)"
    by blast+
  from B have "SSARenameBB diamondGen diamondProg staleDT 0 emptyMemSSA = Inr emptyMemSSA"
    by simp
  with n A b show ?thesis by blast
qed

text \<open>
  C2 as stated fails: with a dominator tree that has no node for the entry block of
  the diamond, \<^verbatim>\<open>buildMemSSA\<close> returns a state and no failure.
\<close>

theorem SSARenameBB_missing_node_counterexample:
  "getNode staleDT (getEntryBlock diamondFun) = None \<and>
   (\<exists>s'. buildMemSSA diamondGen diamondProg diamondFun diamondDF staleDT emptyMemSSA = Inr s')"
proof -
  have "getNode staleDT (getEntryBlock diamondFun) = None"
    by (simp add: staleDT_def diamondFun_def)
  moreover from diamond_build_staleDT
  have "\<exists>s'. buildMemSSA diamondGen diamondProg diamondFun diamondDF staleDT emptyMemSSA = Inr s'"
    by (auto elim!: bindE_InrE)
  ultimately show ?thesis ..
qed

subsection \<open>Version numbers\<close>



subsection \<open>Entry chis and return mus\<close>

text \<open>
  C4. For every region used in a function, \<^verbatim>\<open>createMUCHI\<close> creates exactly one entry chi
  for the function and the region, and exactly one return mu if and only if
  \<^verbatim>\<open>functionDoesNotRet\<close> is false; for a function that does not return it creates the
  entry chi and no return mu. The state is the one \<^verbatim>\<open>buildMemSSA\<close> hands over, after
  \<^verbatim>\<open>setCurrentDFDT\<close>; the used regions are those collected by the first loop. For a
  region that is not used, nothing is created.
\<close>

theorem createMUCHI_entry_chi_return_mu:
  assumes "createMUCHI p g f (setCurrentDFDT s) = Inr s'"
  shows "entryChiCount s' (funId f) mr =
           entryChiCount s (funId f) mr + (if mr \<in> set (usedRegs s') then 1 else 0) \<and>
         returnMuCount s' (funId f) mr =
           returnMuCount s (funId f) mr +
             (if mr \<in> set (usedRegs s') \<and> functionDoesNotRet f = False then 1 else 0)"
proof -
  let ?s1 = "fold (createMUCHI_block p g) (reachableBBs f) (setCurrentDFDT s)"
  have s': "s' = entryState f (usedRegs ?s1) ?s1"
    using assms by (simp add: createMUCHI_eq)
  have fr: "buildsNodesOnly (setCurrentDFDT s) ?s1"
    by (rule createMUCHI_blocks_nodes)
  then have d: "distinct (usedRegs ?s1)"
    by (simp add: buildsNodesOnly_def setCurrentDFDT_def)
  from fr have e: "funToEntryChiSetMap ?s1 = funToEntryChiSetMap s"
    and r: "funToReturnMuSetMap ?s1 = funToReturnMuSetMap s"
    by (simp_all add: buildsNodesOnly_def setCurrentDFDT_def)
  have "entryChiCount s' (funId f) mr =
           entryChiCount s (funId f) mr + (if mr \<in> set (usedRegs s') then 1 else 0)"
    unfolding s' entryChiCount_def
    by (simp add: entryState_def e filter_map_entryChiOf length_filter_eq_distinct[OF d])
  moreover have "returnMuCount s' (funId f) mr =
           returnMuCount s (funId f) mr +
             (if mr \<in> set (usedRegs s') \<and> functionDoesNotRet f = False then 1 else 0)"
    unfolding s' returnMuCount_def
    by (simp add: entryState_def r filter_map_newMU length_filter_eq_distinct[OF d])
  ultimately show ?thesis ..
qed

theorem createMUCHI_entry_chi_return_mu_witness:
  "(\<exists>s'. createMUCHI diamondProg diamondGen diamondFun (setCurrentDFDT emptyMemSSA) = Inr s' \<and>
      entryChiCount s' 0 0 = 1 \<and> returnMuCount s' 0 0 = 1 \<and>
      entryChiCount s' 0 1 = 0 \<and> returnMuCount s' 0 1 = 0) \<and>
   (\<exists>s'. createMUCHI diamondProg diamondGen (diamondFun\<lparr>functionDoesNotRet := True\<rparr>)
            (setCurrentDFDT emptyMemSSA) = Inr s' \<and>
      entryChiCount s' 0 0 = 1 \<and> returnMuCount s' 0 0 = 0)"
proof -
  let ?nr = "diamondFun\<lparr>functionDoesNotRet := True\<rparr>"
  have e0: "entryChiCount emptyMemSSA 0 mr = 0" "returnMuCount emptyMemSSA 0 mr = 0" for mr
    by (simp_all add: entryChiCount_def returnMuCount_def emptyMemSSA_def)
  have f: "funId diamondFun = 0" "functionDoesNotRet diamondFun = False"
    "funId ?nr = 0" "functionDoesNotRet ?nr = True"
    by (simp_all add: diamondFun_def)
  obtain s1 where s1: "createMUCHI diamondProg diamondGen diamondFun (setCurrentDFDT emptyMemSSA) = Inr s1"
    and u1: "usedRegs s1 = [0]"
    using diamond_createMUCHI by blast
  have nr: "createMUCHI diamondProg diamondGen ?nr (setCurrentDFDT emptyMemSSA) =
      Inr (entryState ?nr [0] (fold (createMUCHI_block diamondProg diamondGen) (reachableBBs ?nr)
            (setCurrentDFDT emptyMemSSA)))"
    using diamond_loop1_usedRegs by (simp add: createMUCHI_eq diamondFun_def)
  then obtain s2 where s2: "createMUCHI diamondProg diamondGen ?nr (setCurrentDFDT emptyMemSSA) = Inr s2"
    and u2: "usedRegs s2 = [0]"
    using diamond_loop1_usedRegs by (simp add: diamondFun_def)
  from createMUCHI_entry_chi_return_mu[OF s1, of 0] createMUCHI_entry_chi_return_mu[OF s1, of 1]
    createMUCHI_entry_chi_return_mu[OF s2, of 0] s1 s2
  show ?thesis
    by (simp add: e0 f u1 u2)
qed

subsection \<open>Phi placement\<close>

text \<open>
  C5, as amended. \<^verbatim>\<open>insertPHI\<close> adds exactly one phi for a block and a region when
  the region is used and the block is in the iterated dominance frontier closure of
  the region's defining blocks (\<open>reg2BBMap\<close>), and none otherwise; the phis that
  \<open>bb2PhiSetMap\<close> held before stay. So after \<^verbatim>\<open>createMUCHI\<close> and \<^verbatim>\<open>insertPHI\<close>, for a
  block and a region that had no phi before the function was built, there is at
  most one phi, and there is one if and only if the block is in that closure. A
  block that the frontier map misses has no frontier in the closure.
\<close>

theorem insertPHI_minimal:
  "phiCount (insertPHI df s) b mr =
     phiCount s b mr +
       (if mr \<in> set (usedRegs s) \<and> b \<in> iteratedDF df (set (reg2BBMap s mr)) then 1 else 0) \<and>
   (createMUCHI p g f (setCurrentDFDT s0) = Inr s \<and> phiCount s0 b mr = 0 \<longrightarrow>
      phiCount (insertPHI df s) b mr \<le> 1 \<and>
      (0 < phiCount (insertPHI df s) b mr \<longleftrightarrow> b \<in> iteratedDF df (set (reg2BBMap s mr))))"
proof (intro conjI impI)
  obtain m' where
    e: "\<forall>b r. phiCount (insertPHI df s) b r =
            phiCount s b r +
              (if r \<in> set (usedRegs s) \<and> b \<in> iteratedDF df (set (reg2BBMap s r)) then 1 else 0)"
    by (rule insertPHI_effect)
  then show eq: "phiCount (insertPHI df s) b mr =
     phiCount s b mr +
       (if mr \<in> set (usedRegs s) \<and> b \<in> iteratedDF df (set (reg2BBMap s mr)) then 1 else 0)"
    by blast
  assume a: "createMUCHI p g f (setCurrentDFDT s0) = Inr s \<and> phiCount s0 b mr = 0"
  from a createMUCHI_defs(2)[of p g f s0 s] have z: "phiCount s b mr = 0"
    by (simp add: phiCount_def phisAt_def)
  have u: "mr \<in> set (usedRegs s)" if "b \<in> iteratedDF df (set (reg2BBMap s mr))"
  proof -
    from that have "reg2BBMap s mr \<noteq> []" by auto
    with a createMUCHI_defs(1)[of p g f s0 s mr] show ?thesis by blast
  qed
  from eq z show "phiCount (insertPHI df s) b mr \<le> 1" by simp
  from eq z u show "0 < phiCount (insertPHI df s) b mr \<longleftrightarrow>
      b \<in> iteratedDF df (set (reg2BBMap s mr))"
    by auto
qed

theorem insertPHI_minimal_witness:
  "\<exists>s. createMUCHI diamondProg diamondGen diamondFun (setCurrentDFDT emptyMemSSA) = Inr s \<and>
     phiCount emptyMemSSA 3 0 = 0 \<and> phiCount emptyMemSSA 1 0 = 0 \<and>
     phiCount (insertPHI diamondDF s) 3 0 = 1 \<and>
     3 \<in> iteratedDF diamondDF (set (reg2BBMap s 0)) \<and>
     phiCount (insertPHI diamondDF s) 1 0 = 0 \<and>
     1 \<notin> iteratedDF diamondDF (set (reg2BBMap s 0))"
proof -
  from diamond_phis obtain s where
    c: "createMUCHI diamondProg diamondGen diamondFun (setCurrentDFDT emptyMemSSA) = Inr s"
    and p3: "phiCount (insertPHI diamondDF s) 3 0 = 1"
    and p1: "phiCount (insertPHI diamondDF s) 1 0 = 0"
    by (auto elim!: bindE_InrE)
  have z: "phiCount emptyMemSSA 3 0 = 0" "phiCount emptyMemSSA 1 0 = 0"
    by (simp_all add: phiCount_def phisAt_def emptyMemSSA_def)
  from insertPHI_minimal[of diamondDF s 3 0 diamondProg diamondGen diamondFun emptyMemSSA] c z p3
  have i3: "3 \<in> iteratedDF diamondDF (set (reg2BBMap s 0))" by auto
  from insertPHI_minimal[of diamondDF s 1 0 diamondProg diamondGen diamondFun emptyMemSSA] c z p1
  have i1: "1 \<notin> iteratedDF diamondDF (set (reg2BBMap s 0))" by auto
  from c z p3 i3 p1 i1 show ?thesis by blast
qed

text \<open>
  C5 as stated fails: the map \<open>bb2MRSetMap\<close> that keeps a phi from being inserted
  twice is a local of one call of \<^verbatim>\<open>insertPHI\<close>, and \<open>bb2PhiSetMap\<close> is not cleared
  between builds. After the diamond is built a second time, block 3, which is in the
  closure for region 0, holds two phis for region 0.
\<close>

theorem insertPHI_second_build_counterexample:
  "\<exists>s1 s2 s3.
     buildMemSSA diamondGen diamondProg diamondFun diamondDF diamondDT emptyMemSSA = Inr s1 \<and>
     phiCount s1 3 0 = 1 \<and>
     createMUCHI diamondProg diamondGen diamondFun (setCurrentDFDT s1) = Inr s2 \<and>
     3 \<in> iteratedDF diamondDF (set (reg2BBMap s2 0)) \<and>
     phiCount (insertPHI diamondDF s2) 3 0 = 2 \<and>
     buildMemSSA diamondGen diamondProg diamondFun diamondDF diamondDT s1 = Inr s3 \<and>
     phiCount s3 3 0 = 2"
proof -
  from diamond_second_build obtain s1 s2 s3 where
    b1: "buildMemSSA diamondGen diamondProg diamondFun diamondDF diamondDT emptyMemSSA = Inr s1"
    and c: "createMUCHI diamondProg diamondGen diamondFun (setCurrentDFDT s1) = Inr s2"
    and b2: "buildMemSSA diamondGen diamondProg diamondFun diamondDF diamondDT s1 = Inr s3"
    and v: "phiCount s1 3 0 = 1" "reg2BBMap s2 0 = [1]"
      "phiCount (insertPHI diamondDF s2) 3 0 = 2" "phiCount s3 3 0 = 2"
    by (auto elim!: bindE_InrE)
  have "(1, 3) \<in> dfRel diamondDF"
    by (simp add: dfRel_def diamondDF_def)
  then have "(1, 3) \<in> (dfRel diamondDF)\<^sup>+" by (rule r_into_trancl)
  with v(2) have i: "3 \<in> iteratedDF diamondDF (set (reg2BBMap s2 0))"
    by (auto simp: iteratedDF_def)
  from b1 v(1) c i v(3) b2 v(4) show ?thesis by blast
qed

subsection \<open>buildMemSSA refuses an external function\<close>

text \<open>
  C6. Calling \<^verbatim>\<open>buildMemSSA\<close> on a function that \<^verbatim>\<open>isExtCall\<close> reports as external fails
  the assertion at the head of the function: the result is the failure whatever the
  state, the dominance data and the program are, and no state is returned, so no
  node has been built for the function. (Assertions are taken as compiled in.)
\<close>

theorem buildMemSSA_external_fails:
  "isExtCall f \<Longrightarrow>
     buildMemSSA g p f df dt s =
       Inl (AssertionFailure ''we do not build memory ssa for external functions'')"
  by (simp add: buildMemSSA_def)

theorem buildMemSSA_external_fails_witness:
  "isExtCall externalFun \<and>
   buildMemSSA diamondGen diamondProg externalFun diamondDF diamondDT emptyMemSSA =
     Inl (AssertionFailure ''we do not build memory ssa for external functions'')"
  using buildMemSSA_external_fails
    [of externalFun diamondGen diamondProg diamondDF diamondDT emptyMemSSA]
  by (simp add: externalFun_def)

subsection \<open>A block that the frontier map misses\<close>

text \<open>
  C7. When the block at the back of the worklist is not a key of the dominance
  frontier map, the loop writes the warning and goes on with the rest of the
  worklist: the dedup map is untouched and no phi is inserted for the block. The
  warning is in the state that the loop returns. There is no failure: the loop is a
  total function that returns a state.
\<close>

theorem insertPHI_frontier_miss:
  assumes "bbs \<noteq> []" and "map_of df (last bbs) = None"
  shows "insertPHI_while df mr bbs m s =
           insertPHI_while df mr (butlast bbs) m
             (writeWrnMsg ''bb not in the dominance frontier map??'' s) \<and>
         ''bb not in the dominance frontier map??''
           \<in> set (warnings (snd (insertPHI_while df mr bbs m s)))"
proof -
  let ?sw = "writeWrnMsg ''bb not in the dominance frontier map??'' s"
  from assms have e: "insertPHI_while df mr bbs m s = insertPHI_while df mr (butlast bbs) m ?sw"
    by (rule insertPHI_while_miss)
  obtain m' s' where r: "insertPHI_while df mr (butlast bbs) m ?sw = (m', s')"
    by (cases "insertPHI_while df mr (butlast bbs) m ?sw") auto
  from insertPHI_while_warnings[OF r]
  have "''bb not in the dominance frontier map??'' \<in> set (warnings s')"
    by (auto simp: writeWrnMsg_def)
  with e r show ?thesis by simp
qed

theorem insertPHI_frontier_miss_witness:
  "[1, 7] \<noteq> [] \<and> map_of diamondDF (last [1, 7]) = None \<and>
   insertPHI_while diamondDF 0 [1, 7] (\<lambda>_. {}) emptyMemSSA =
     insertPHI_while diamondDF 0 [1] (\<lambda>_. {})
       (writeWrnMsg ''bb not in the dominance frontier map??'' emptyMemSSA) \<and>
   warnings (snd (insertPHI_while diamondDF 0 [1, 7] (\<lambda>_. {}) emptyMemSSA)) =
     [''bb not in the dominance frontier map??''] \<and>
   phisAt (snd (insertPHI_while diamondDF 0 [1, 7] (\<lambda>_. {}) emptyMemSSA)) 3 = [newPHI 3 0]"
proof -
  have n: "map_of diamondDF (last [1, 7 :: nat]) = None"
    by (simp add: diamondDF_def)
  have w: "warnings (snd (insertPHI_while diamondDF 0 [1, 7] (\<lambda>_. {}) emptyMemSSA)) =
     [''bb not in the dominance frontier map??'']"
    and p: "phisAt (snd (insertPHI_while diamondDF 0 [1, 7] (\<lambda>_. {}) emptyMemSSA)) 3 = [newPHI 3 0]"
    by (simp_all add: insertPHI_while.simps diamondDF_def emptyMemSSA_def writeWrnMsg_def
        AddMSSAPHI_def phisAt_def Let_def)
  from insertPHI_frontier_miss[OF _ n, of 0 "\<lambda>_. {}" emptyMemSSA] n w p
  show ?thesis by simp
qed

subsection \<open>Termination of insertPHI\<close>

text \<open>
  C8. The worklist loop of \<^verbatim>\<open>insertPHI\<close> terminates from every state. The pass over a
  frontier set pushes exactly the blocks that it records in the dedup map for the
  region, each once. The dedup map starts empty, and at the end of \<^verbatim>\<open>insertPHI\<close> its
  entries are pairs of a frontier block and a used region: the number of pushes is
  at most the number of frontier blocks times the number of used regions.
\<close>

theorem insertPHI_terminates_bounded:
  "insertPHI_while_dom (df, mr, bbs, m, s) \<and>
   (insertPHI_domSet mr domSet m bbs s = (m', bbs', s') \<longrightarrow>
      (\<exists>pushed. bbs' = bbs @ pushed \<and> distinct pushed \<and>
         set pushed = {b \<in> set domSet. mr \<notin> m b} \<and>
         (\<forall>b. m' b = (if b \<in> set pushed then insert mr (m b) else m b)))) \<and>
   (insertPHI_regions df (usedRegs s) (\<lambda>_. {}) s = (mfin, sfin) \<longrightarrow>
      {(b, r). r \<in> mfin b} \<subseteq> dfRange df \<times> set (usedRegs s) \<and>
      card {(b, r). r \<in> mfin b} \<le> card (dfRange df) * length (usedRegs s))"
proof (intro conjI impI)
  show "insertPHI_while_dom (df, mr, bbs, m, s)"
    by (rule insertPHI_while_total)
next
  assume "insertPHI_domSet mr domSet m bbs s = (m', bbs', s')"
  then show "\<exists>pushed. bbs' = bbs @ pushed \<and> distinct pushed \<and>
         set pushed = {b \<in> set domSet. mr \<notin> m b} \<and>
         (\<forall>b. m' b = (if b \<in> set pushed then insert mr (m b) else m b))"
    by (rule insertPHI_domSet_pushes)
next
  assume r: "insertPHI_regions df (usedRegs s) (\<lambda>_. {}) s = (mfin, sfin)"
  obtain m0 where m0: "insertPHI_regions df (usedRegs s) (\<lambda>_. {}) s = (m0, insertPHI df s)"
    and mk: "\<forall>r. marked m0 r =
            (if r \<in> set (usedRegs s) then iteratedDF df (set (reg2BBMap s r)) else {})"
    by (rule insertPHI_effect)
  from r m0 have "mfin = m0" by simp
  with mk have k: "\<forall>r. marked mfin r =
            (if r \<in> set (usedRegs s) then iteratedDF df (set (reg2BBMap s r)) else {})"
    by simp
  show sub: "{(b, r). r \<in> mfin b} \<subseteq> dfRange df \<times> set (usedRegs s)"
  proof
    fix x assume "x \<in> {(b, r). r \<in> mfin b}"
    then obtain b r where x: "x = (b, r)" and "r \<in> mfin b" by auto
    then have "b \<in> marked mfin r" by (simp add: marked_def)
    with k iteratedDF_range[of df] have "r \<in> set (usedRegs s) \<and> b \<in> dfRange df"
      by (auto split: if_splits)
    with x show "x \<in> dfRange df \<times> set (usedRegs s)" by simp
  qed
  have "card {(b, r). r \<in> mfin b} \<le> card (dfRange df \<times> set (usedRegs s))"
    by (rule card_mono) (simp_all add: finite_dfRange sub)
  also have "\<dots> = card (dfRange df) * card (set (usedRegs s))"
    by (rule card_cartesian_product)
  also have "\<dots> \<le> card (dfRange df) * length (usedRegs s)"
    by (simp add: card_length)
  finally show "card {(b, r). r \<in> mfin b} \<le> card (dfRange df) * length (usedRegs s)" .
qed

theorem insertPHI_terminates_bounded_witness:
  "insertPHI_while_dom (diamondDF, 0, [1], (\<lambda>_. {}), emptyMemSSA) \<and>
   (\<exists>m' bbs' s' pushed.
      insertPHI_domSet 0 [3] (\<lambda>_. {}) [2] emptyMemSSA = (m', bbs', s') \<and>
      bbs' = [2] @ pushed \<and> set pushed = {3}) \<and>
   (\<exists>mfin sfin.
      insertPHI_regions diamondDF (usedRegs (emptyMemSSA\<lparr>usedRegs := [0]\<rparr>)) (\<lambda>_. {})
        (emptyMemSSA\<lparr>usedRegs := [0]\<rparr>) = (mfin, sfin) \<and>
      card {(b, r). r \<in> mfin b} \<le> card (dfRange diamondDF) * 1)"
proof -
  obtain m' bbs' s' where d: "insertPHI_domSet 0 [3] (\<lambda>_. {}) [2] emptyMemSSA = (m', bbs', s')"
    by (cases "insertPHI_domSet 0 [3] (\<lambda>_. {}) [2] emptyMemSSA") auto
  obtain mfin sfin where r:
    "insertPHI_regions diamondDF (usedRegs (emptyMemSSA\<lparr>usedRegs := [0]\<rparr>)) (\<lambda>_. {})
        (emptyMemSSA\<lparr>usedRegs := [0]\<rparr>) = (mfin, sfin)"
    by (cases "insertPHI_regions diamondDF (usedRegs (emptyMemSSA\<lparr>usedRegs := [0]\<rparr>)) (\<lambda>_. {})
        (emptyMemSSA\<lparr>usedRegs := [0]\<rparr>)") auto
  note T = insertPHI_terminates_bounded
    [of diamondDF 0 "[1]" "\<lambda>_. {}" emptyMemSSA]
  note T1 = insertPHI_terminates_bounded
    [of diamondDF 0 "[2]" "\<lambda>_. {}" emptyMemSSA "[3]" m' bbs' s']
  note T2 = insertPHI_terminates_bounded
    [of diamondDF 0 "[2]" "\<lambda>_. {}" "emptyMemSSA\<lparr>usedRegs := [0]\<rparr>" "[3]" m' bbs' s' mfin sfin]
  from T have a: "insertPHI_while_dom (diamondDF, 0, [1], (\<lambda>_. {}), emptyMemSSA)"
    by (rule conjunct1)
  from T1[THEN conjunct2, THEN conjunct1, THEN mp, OF d]
  obtain pushed where p: "bbs' = [2] @ pushed" "set pushed = {b \<in> set [3]. (0::nat) \<notin> {}}"
    by (elim exE conjE)
  from p(2) have "set pushed = {3}" by simp
  with p(1) d have b: "\<exists>m' bbs' s' pushed.
      insertPHI_domSet 0 [3] (\<lambda>_. {}) [2] emptyMemSSA = (m', bbs', s') \<and>
      bbs' = [2] @ pushed \<and> set pushed = {3}"
    by (intro exI conjI)
  from T2[THEN conjunct2, THEN conjunct2, THEN mp, OF r, THEN conjunct2]
  have "card {(b, r). r \<in> mfin b} \<le> card (dfRange diamondDF) * 1" by simp
  with r have c: "\<exists>mfin sfin.
      insertPHI_regions diamondDF (usedRegs (emptyMemSSA\<lparr>usedRegs := [0]\<rparr>)) (\<lambda>_. {})
        (emptyMemSSA\<lparr>usedRegs := [0]\<rparr>) = (mfin, sfin) \<and>
      card {(b, r). r \<in> mfin b} \<le> card (dfRange diamondDF) * 1"
    by (intro exI conjI)
  from a b c show ?thesis by (intro conjI)
qed

subsection \<open>The order of renaming the phis\<close>

text \<open>
  C9. The renaming of a block runs in three steps. First the phi results: every phi
  of the block gets a new version of its region as its result, with a number that
  no earlier version of the region has, and the version is pushed on the region's
  stack; no operand slot of any phi changes in this step, and the phis of the other
  blocks are untouched. Then the instructions of the block, which leave all phis
  alone. Then the operands: for every control-flow successor, every phi of the
  successor has, in the slot \<open>getBBPredecessorPos\<close> of this block among the
  successor's predecessors, the version that is on top of its region's stack at
  that time (the stacks do not change during this step).
\<close>

theorem renameBlock_phi_order:
  assumes "renameBlock g p bb s = Inr (ms, s')"
  shows "\<exists>ms1 s1 s2.
     renamePhiResults bb [] s = Inr (ms1, s1) \<and>
     renameInsts g p bb (instructions p bb) ms1 s1 = Inr (ms, s2) \<and>
     fillSuccPhiOps p bb (successors p bb) s2 = Inr s' \<and>
     (\<forall>b. b \<noteq> bb \<longrightarrow> bb2PhiSetMap s1 b = bb2PhiSetMap s b) \<and>
     (\<forall>phis. bb2PhiSetMap s bb = Some phis \<longrightarrow>
        (\<exists>phis1. bb2PhiSetMap s1 bb = Some phis1 \<and> list_all2 (phiResRenamed s s1) phis phis1)) \<and>
     bb2PhiSetMap s2 = bb2PhiSetMap s1 \<and>
     mr2VerStackMap s' = mr2VerStackMap s2 \<and>
     (\<forall>succ \<in> set (successors p bb). \<forall>phis. bb2PhiSetMap s' succ = Some phis \<longrightarrow>
        (\<forall>phi \<in> set phis. \<exists>v. topStackVer (phi_mr phi) s2 = Inr v \<and>
            phi_opVers phi (getBBPredecessorPos p bb succ) = Some v))"
proof -
  from assms obtain ms1 s1 s2 where
    a: "renamePhiResults bb [] s = Inr (ms1, s1)"
    and b: "renameInsts g p bb (instructions p bb) ms1 s1 = Inr (ms, s2)"
    and c: "fillSuccPhiOps p bb (successors p bb) s2 = Inr s'"
    unfolding renameBlock_def by (auto elim!: bindE_InrE)
  from renamePhiResults_effect[OF a] renameInsts_phis[OF b] fillSuccPhiOps_effect[OF c] a b c
  show ?thesis by blast
qed

theorem renameBlock_phi_order_witness:
  "\<exists>s0 ms2 s2 ms3 s3.
     createMUCHI diamondProg diamondGen diamondFun (setCurrentDFDT emptyMemSSA) = Inr s0 \<and>
     renameBlock diamondGen diamondProg 2 (insertPHI diamondDF s0) = Inr (ms2, s2) \<and>
     3 \<in> set (successors diamondProg 2) \<and> getBBPredecessorPos diamondProg 2 3 = 1 \<and>
     (\<exists>phi v. bb2PhiSetMap s2 3 = Some [phi] \<and> phi_opVers phi 1 = Some v \<and> ver_version v = 1) \<and>
     renameBlock diamondGen diamondProg 3 (insertPHI diamondDF s0) = Inr (ms3, s3) \<and>
     (\<exists>phi phi' v. bb2PhiSetMap (insertPHI diamondDF s0) 3 = Some [phi] \<and>
        bb2PhiSetMap s3 3 = Some [phi'] \<and> phi' = phi\<lparr>phi_resVer := Some v\<rparr> \<and> ver_version v = 2)"
proof -
  from diamond_renameBlock obtain s0 ms2 s2 ms3 s3 where
    c: "createMUCHI diamondProg diamondGen diamondFun (setCurrentDFDT emptyMemSSA) = Inr s0"
    and k2: "renameBlock diamondGen diamondProg 2 (insertPHI diamondDF s0) = Inr (ms2, s2)"
    and k3: "renameBlock diamondGen diamondProg 3 (insertPHI diamondDF s0) = Inr (ms3, s3)"
    and e2: "map_option (map (\<lambda>phi. map_option ver_version (phi_opVers phi 1))) (bb2PhiSetMap s2 3) =
        Some [Some 1]"
    and e3: "map_option (map (\<lambda>phi. (map_option ver_version (phi_resVer phi), phi_opVers phi 0, phi_opVers phi 1)))
          (bb2PhiSetMap s3 3) = Some [(Some 2, None, None)]"
    and e0: "map_option (map phi_mr) (bb2PhiSetMap (insertPHI diamondDF s0) 3) = Some [0]"
    by (auto elim!: bindE_InrE)
  have su: "3 \<in> set (successors diamondProg 2)" and pos: "getBBPredecessorPos diamondProg 2 3 = 1"
    by (simp_all add: diamondProg_def)
  from e2 obtain phi2 where p2: "bb2PhiSetMap s2 3 = Some [phi2]"
    and o2: "map_option ver_version (phi_opVers phi2 1) = Some 1"
    by (cases "bb2PhiSetMap s2 3") auto
  from renameBlock_phi_order[OF k2]
  obtain ms1 :: "MemRegion list" and s1 sb where
    f: "\<forall>succ \<in> set (successors diamondProg 2). \<forall>phis. bb2PhiSetMap s2 succ = Some phis \<longrightarrow>
        (\<forall>phi \<in> set phis. \<exists>v. topStackVer (phi_mr phi) sb = Inr v \<and>
            phi_opVers phi (getBBPredecessorPos diamondProg 2 succ) = Some v)"
    by (elim exE conjE)
  from f su p2 have "\<exists>v. topStackVer (phi_mr phi2) sb = Inr v \<and>
            phi_opVers phi2 (getBBPredecessorPos diamondProg 2 3) = Some v"
    by simp
  then obtain v2 where "phi_opVers phi2 1 = Some v2"
    using pos by auto
  with o2 have A: "\<exists>phi v. bb2PhiSetMap s2 3 = Some [phi] \<and> phi_opVers phi 1 = Some v \<and> ver_version v = 1"
    using p2 by auto
  from e0 obtain phi where p0: "bb2PhiSetMap (insertPHI diamondDF s0) 3 = Some [phi]"
    by (cases "bb2PhiSetMap (insertPHI diamondDF s0) 3") auto
  from e3 obtain phi3 where p3: "bb2PhiSetMap s3 3 = Some [phi3]"
    and o3: "map_option ver_version (phi_resVer phi3) = Some 2"
    by (cases "bb2PhiSetMap s3 3") auto
  from renameBlock_phi_order[OF k3]
  obtain ms1' :: "MemRegion list" and s1 sb where
    t1: "\<forall>phis. bb2PhiSetMap (insertPHI diamondDF s0) 3 = Some phis \<longrightarrow>
        (\<exists>phis1. bb2PhiSetMap s1 3 = Some phis1 \<and>
           list_all2 (phiResRenamed (insertPHI diamondDF s0) s1) phis phis1)"
    and t2: "bb2PhiSetMap sb = bb2PhiSetMap s1"
    and t3: "fillSuccPhiOps diamondProg 3 (successors diamondProg 3) sb = Inr s3"
    by (elim exE conjE)
  from t3 have "s3 = sb" by (simp add: diamondProg_def)
  with t2 p3 have "bb2PhiSetMap s1 3 = Some [phi3]" by simp
  with t1 p0 have "list_all2 (phiResRenamed (insertPHI diamondDF s0) s1) [phi] [phi3]"
    by auto
  then have "phiResRenamed (insertPHI diamondDF s0) s1 phi phi3"
    by simp
  then obtain v where "phi3 = phi\<lparr>phi_resVer := Some v\<rparr>"
    by (auto simp: phiResRenamed_def)
  with o3 p0 p3 have B: "\<exists>phi phi' v. bb2PhiSetMap (insertPHI diamondDF s0) 3 = Some [phi] \<and>
        bb2PhiSetMap s3 3 = Some [phi'] \<and> phi' = phi\<lparr>phi_resVer := Some v\<rparr> \<and> ver_version v = 2"
    by auto
  from c k2 su pos A k3 B show ?thesis by (intro exI, intro conjI)
qed

subsection \<open>The assertions of newSSAName\<close>

text \<open>
  C10, as amended. \<^verbatim>\<open>newSSAName\<close> returns a version exactly when the region has an entry
  in \<open>mr2CounterMap\<close> and an entry in \<open>mr2VerStackMap\<close>, and fails one of its two
  assertions otherwise. \<^verbatim>\<open>createMUCHI\<close> gives both entries to every used region before
  it asks for a name, so it never fails, and after it \<^verbatim>\<open>newSSAName\<close> returns a version
  for every used region. (The entries are not removed when the next function is
  built: see the counterexample.)
\<close>

theorem newSSAName_assertions:
  "((\<exists>v s'. newSSAName mr d s = Inr (v, s')) \<longleftrightarrow>
      mr2CounterMap s mr \<noteq> None \<and> mr2VerStackMap s mr \<noteq> None) \<and>
   ((\<exists>msg. newSSAName mr d s = Inl (AssertionFailure msg)) \<longleftrightarrow>
      mr2CounterMap s mr = None \<or> mr2VerStackMap s mr = None) \<and>
   (\<exists>s1. createMUCHI p g f s = Inr s1 \<and>
      (\<forall>mr' \<in> set (usedRegs s1). \<exists>v s2. newSSAName mr' d s1 = Inr (v, s2)))"
proof (intro conjI)
  show "(\<exists>v s'. newSSAName mr d s = Inr (v, s')) \<longleftrightarrow>
      mr2CounterMap s mr \<noteq> None \<and> mr2VerStackMap s mr \<noteq> None"
    by (auto simp: newSSAName_def Let_def split: option.splits)
  show "(\<exists>msg. newSSAName mr d s = Inl (AssertionFailure msg)) \<longleftrightarrow>
      mr2CounterMap s mr = None \<or> mr2VerStackMap s mr = None"
    by (auto simp: newSSAName_def Let_def split: option.splits)
  let ?s1 = "fold (createMUCHI_block p g) (reachableBBs f) s"
  have "\<forall>mr' \<in> set (usedRegs (entryState f (usedRegs ?s1) ?s1)).
      \<exists>v s2. newSSAName mr' d (entryState f (usedRegs ?s1) ?s1) = Inr (v, s2)"
    by (simp add: newSSAName_def Let_def entryState_def)
  then show "\<exists>s1. createMUCHI p g f s = Inr s1 \<and>
      (\<forall>mr' \<in> set (usedRegs s1). \<exists>v s2. newSSAName mr' d s1 = Inr (v, s2))"
    by (simp add: createMUCHI_eq)
qed

theorem newSSAName_assertions_witness:
  "(\<exists>s1. createMUCHI diamondProg diamondGen diamondFun (setCurrentDFDT emptyMemSSA) = Inr s1 \<and>
      usedRegs s1 = [0] \<and> (\<exists>v s2. newSSAName 0 (ENTRYCHI 0 0) s1 = Inr (v, s2))) \<and>
   mr2CounterMap (setCurrentDFDT emptyMemSSA) 7 = None \<and>
   (\<exists>msg. newSSAName 7 (ENTRYCHI 0 0) (setCurrentDFDT emptyMemSSA) = Inl (AssertionFailure msg))"
proof -
  note T = newSSAName_assertions
    [of 7 "ENTRYCHI 0 0" "setCurrentDFDT emptyMemSSA" diamondProg diamondGen diamondFun]
  have n: "mr2CounterMap (setCurrentDFDT emptyMemSSA) 7 = None"
    by (simp add: setCurrentDFDT_def emptyMemSSA_def)
  with T have f: "\<exists>msg. newSSAName 7 (ENTRYCHI 0 0) (setCurrentDFDT emptyMemSSA) =
      Inl (AssertionFailure msg)"
    by blast
  from T obtain s1 where
    c: "createMUCHI diamondProg diamondGen diamondFun (setCurrentDFDT emptyMemSSA) = Inr s1"
    and a: "\<forall>mr' \<in> set (usedRegs s1). \<exists>v s2. newSSAName mr' (ENTRYCHI 0 0) s1 = Inr (v, s2)"
    by blast
  from c diamond_createMUCHI have u: "usedRegs s1 = [0]" by auto
  with a have "\<exists>v s2. newSSAName 0 (ENTRYCHI 0 0) s1 = Inr (v, s2)" by simp
  with c u n f show ?thesis by blast
qed

text \<open>
  C10 as stated fails for a region that only an earlier function used: after
  \<^verbatim>\<open>buildMemSSA\<close> on the diamond and then on the second function, region 0 is not a
  used region of the second function, and \<^verbatim>\<open>newSSAName\<close> still returns a version for it.
\<close>

theorem newSSAName_stale_region_counterexample:
  "\<exists>s1 s2 v s3.
     buildMemSSA diamondGen diamondProg diamondFun diamondDF diamondDT emptyMemSSA = Inr s1 \<and>
     buildMemSSA diamondGen diamondProg leafFun [(20, [])] (DomTreeNode 20 []) s1 = Inr s2 \<and>
     0 \<notin> set (usedRegs s2) \<and> newSSAName 0 (ENTRYCHI 2 0) s2 = Inr (v, s3)"
proof -
  from diamond_then_leaf obtain s1 s2 v s3 where
    "buildMemSSA diamondGen diamondProg diamondFun diamondDF diamondDT emptyMemSSA = Inr s1"
    "buildMemSSA diamondGen diamondProg leafFun [(20, [])] (DomTreeNode 20 []) s1 = Inr s2"
    "newSSAName 0 (ENTRYCHI 2 0) s2 = Inr (v, s3)" "usedRegs s2 = []"
    by (auto elim!: bindE_InrE)
  then show ?thesis by auto
qed

end
